theory Spec2Isabelle
  imports Complex_Main "HOL-Library.Sublist"
begin

section \<open>Scorer (score.py)\<close>

text \<open>
  \<^verbatim>\<open>
  def score_for_length(file_len_bytes: int, passed: bool) -> float:
      if not passed:
          return 0.001
      base = 2500 - file_len_bytes
      return float(base if base > 1 else 1)
  \<close>
  Python's unbounded \<open>int\<close> is \<open>int\<close>. The returned float is modelled by the real number
  it denotes: \<open>float(base)\<close> is exact for every \<open>base\<close> of magnitude below \<open>2^53\<close>, which
  covers every length that \<open>get_file_bytes\<close> (a \<open>len\<close>) can return, and the literal
  \<open>0.001\<close> is the constant \<open>1/1000\<close>.
\<close>

definition score_for_length :: "int \<Rightarrow> bool \<Rightarrow> real" where
  "score_for_length file_len_bytes passed =
     (if \<not> passed then 0.001
      else (let base = 2500 - file_len_bytes
            in real_of_int (if base > 1 then base else 1)))"

section \<open>Python values and faults\<close>

text \<open>
  A raised Python exception. \<open>exc_ordinary\<close> says whether it is an instance of
  \<open>Exception\<close>, the class that \<^verbatim>\<open>except Exception:\<close> catches; \<open>SystemExit\<close>,
  \<open>KeyboardInterrupt\<close> and \<open>GeneratorExit\<close> derive from \<open>BaseException\<close> only.
\<close>

datatype pyexc = PyExc (exc_ordinary: bool) (exc_type: string) (exc_msg: string)

abbreviation TypeError :: "string \<Rightarrow> pyexc" where
  "TypeError msg \<equiv> PyExc True ''TypeError'' msg"

abbreviation ValueError :: "string \<Rightarrow> pyexc" where
  "ValueError msg \<equiv> PyExc True ''ValueError'' msg"

abbreviation JSONDecodeError :: "string \<Rightarrow> pyexc" where
  "JSONDecodeError msg \<equiv> PyExc True ''JSONDecodeError'' msg"

abbreviation SystemExit :: pyexc where
  "SystemExit \<equiv> PyExc False ''SystemExit'' []"

text \<open>
  A float is identified by its \<open>repr\<close>, the shortest decimal text that reads back as the
  same double: fixed notation \<open>[-]I.DDD\<close> (at least one fraction digit), exponent
  notation \<open>[-]D[.DDD]e+XX\<close> or \<open>e-XX\<close>, or one of the three non-finite values. The
  sign flag is \<open>True\<close> for a leading minus.
\<close>

datatype pyfloat =
    FloatFixed bool nat nat "nat list"
  | FloatSci bool nat "nat list" int
  | FloatNaN
  | FloatInf bool

text \<open>
  What a solver can hand back. A tuple serialises as a list does, so \<open>PyList\<close> stands
  for both; \<open>PyDict\<close> has its keys already coerced to strings; \<open>PyObject t\<close> is a value
  of a type \<open>t\<close> that \<open>json\<close> has no encoding for (a generator, a set, a numpy array).
\<close>

datatype pyval =
    PyNone
  | PyBool bool
  | PyInt int
  | PyFloat pyfloat
  | PyStr string
  | PyList "pyval list"
  | PyDict "(string \<times> pyval) list"
  | PyObject string

section \<open>Decimal text\<close>

definition digit_char :: "nat \<Rightarrow> char" where
  "digit_char d = char_of (48 + d mod 10)"

definition is_digit :: "char \<Rightarrow> bool" where
  "is_digit c = (48 \<le> (of_char c :: nat) \<and> (of_char c :: nat) \<le> 57)"

definition digit_val :: "char \<Rightarrow> nat" where
  "digit_val c = of_char c - 48"

function dec :: "nat \<Rightarrow> string" where
  "dec n = (if n < 10 then [digit_char n] else dec (n div 10) @ [digit_char (n mod 10)])"
  by pat_completeness auto
termination
  by (relation "measure id") auto

declare dec.simps [simp del]

definition int_repr :: "int \<Rightarrow> string" where
  "int_repr i = (if i < 0 then CHR ''-'' # dec (nat (- i)) else dec (nat i))"

definition digits :: "nat list \<Rightarrow> string" where
  "digits ds = map digit_char ds"

definition sign_text :: "bool \<Rightarrow> string" where
  "sign_text neg = (if neg then ''-'' else [])"

fun float_repr :: "pyfloat \<Rightarrow> string" where
  "float_repr (FloatFixed neg ip d ds) = sign_text neg @ dec ip @ ''.'' @ digits (d # ds)"
| "float_repr (FloatSci neg d ds e) =
     sign_text neg @ [digit_char d] @ (if ds = [] then [] else ''.'' @ digits ds)
       @ ''e'' @ (if e < 0 then ''-'' else ''+'')
       @ (if nat \<bar>e\<bar> < 10 then ''0'' else []) @ dec (nat \<bar>e\<bar>)"
| "float_repr FloatNaN = ''nan''"
| "float_repr (FloatInf neg) = sign_text neg @ ''inf''"

section \<open>json.dumps\<close>

text \<open>
  \<open>json.dumps(result)\<close> with the default options: separators \<open>', '\<close> and \<open>': '\<close>,
  \<open>ensure_ascii\<close>, \<open>allow_nan\<close>. Strings are over 8-bit code points.
\<close>

definition hex_digit :: "nat \<Rightarrow> char" where
  "hex_digit d = (if d < 10 then char_of (48 + d) else char_of (87 + d))"

definition escape_char :: "char \<Rightarrow> string" where
  "escape_char c =
     (if c = CHR 0x22 then [CHR 0x5C, CHR 0x22]
      else if c = CHR 0x5C then [CHR 0x5C, CHR 0x5C]
      else if c = CHR 0x0A then [CHR 0x5C, CHR ''n'']
      else if c = CHR 0x0D then [CHR 0x5C, CHR ''r'']
      else if c = CHR 0x09 then [CHR 0x5C, CHR ''t'']
      else if c = CHR 0x0C then [CHR 0x5C, CHR ''f'']
      else if c = CHR 0x08 then [CHR 0x5C, CHR ''b'']
      else if (of_char c :: nat) < 32 \<or> 126 < (of_char c :: nat)
        then [CHR 0x5C, CHR ''u'', CHR ''0'', CHR ''0'',
              hex_digit ((of_char c :: nat) div 16), hex_digit ((of_char c :: nat) mod 16)]
      else [c])"

definition encode_basestring_ascii :: "string \<Rightarrow> string" where
  "encode_basestring_ascii s = [CHR 0x22] @ concat (map escape_char s) @ [CHR 0x22]"

fun floatstr :: "pyfloat \<Rightarrow> string" where
  "floatstr FloatNaN = ''NaN''"
| "floatstr (FloatInf False) = ''Infinity''"
| "floatstr (FloatInf True) = ''-Infinity''"
| "floatstr f = float_repr f"

fun join_str :: "string \<Rightarrow> string list \<Rightarrow> string" where
  "join_str sep [] = []"
| "join_str sep [t] = t"
| "join_str sep (t # u # ts) = t @ sep @ join_str sep (u # ts)"

text \<open>The first fault of a sequence of encodings, in order, or all their texts.\<close>

fun collect :: "(pyexc + 'a) list \<Rightarrow> pyexc + 'a list" where
  "collect [] = Inr []"
| "collect (Inl e # rs) = Inl e"
| "collect (Inr t # rs) = (case collect rs of Inl e \<Rightarrow> Inl e | Inr ts \<Rightarrow> Inr (t # ts))"

fun json_dumps :: "pyval \<Rightarrow> pyexc + string" where
  "json_dumps PyNone = Inr ''null''"
| "json_dumps (PyBool b) = Inr (if b then ''true'' else ''false'')"
| "json_dumps (PyInt i) = Inr (int_repr i)"
| "json_dumps (PyFloat f) = Inr (floatstr f)"
| "json_dumps (PyStr s) = Inr (encode_basestring_ascii s)"
| "json_dumps (PyList xs) =
     (case collect (map json_dumps xs) of
        Inl e \<Rightarrow> Inl e
      | Inr ts \<Rightarrow> Inr (''['' @ join_str '', '' ts @ '']''))"
| "json_dumps (PyDict kvs) =
     (case collect (map (\<lambda>kv. json_dumps (snd kv)) kvs) of
        Inl e \<Rightarrow> Inl e
      | Inr ts \<Rightarrow>
          Inr (''{'' @ join_str '', ''
                 (map (\<lambda>(k, t). encode_basestring_ascii k @ '': '' @ t) (zip (map fst kvs) ts))
               @ ''}''))"
| "json_dumps (PyObject t) =
     Inl (TypeError (''Object of type '' @ t @ '' is not JSON serializable''))"

section \<open>str.replace and the character filter\<close>

text \<open>
  \<open>s.replace(old, new)\<close>: every non-overlapping occurrence, leftmost first. The source
  calls it with the non-empty patterns \<open>"true"\<close> and \<open>"false"\<close>; for an empty pattern
  (where Python inserts \<open>new\<close> between all characters) this function returns \<open>s\<close>.
\<close>

function str_replace :: "string \<Rightarrow> string \<Rightarrow> string \<Rightarrow> string" where
  "str_replace old new [] = []"
| "str_replace old new (c # cs) =
     (if old \<noteq> [] \<and> prefix old (c # cs)
      then new @ str_replace old new (drop (length old) (c # cs))
      else c # str_replace old new cs)"
  by pat_completeness auto
termination
  by (relation "measure (\<lambda>(old, new, s). length s)") auto

text \<open>
  \<^verbatim>\<open>_UNSAFE_CHARS_RE = re.compile(r"[^0-9,\[\]\s\.]")\<close>. For a \<open>str\<close> pattern \<open>\s\<close>
  is every character with \<open>str.isspace\<close>; among 8-bit code points these are 9 to 13,
  28 to 32, 0x85 and 0xA0.
\<close>

definition is_space :: "char \<Rightarrow> bool" where
  "is_space c =
     (let n = (of_char c :: nat)
      in (9 \<le> n \<and> n \<le> 13) \<or> (28 \<le> n \<and> n \<le> 32) \<or> n = 133 \<or> n = 160)"

definition unsafe_char :: "char \<Rightarrow> bool" where
  "unsafe_char c =
     (\<not> (is_digit c \<or> c = CHR '','' \<or> c = CHR ''['' \<or> c = CHR '']'' \<or> is_space c
          \<or> c = CHR ''.''))"

definition UNSAFE_CHARS_RE_search :: "string \<Rightarrow> bool" where
  "UNSAFE_CHARS_RE_search s = list_ex unsafe_char s"

section \<open>json.loads on sanitized text\<close>

text \<open>
  What \<open>json.loads\<close> returns for text over the alphabet the filter lets through. Over
  that alphabet JSON has two constructs only, arrays and unsigned decimal numbers without
  exponent, so the parsed value is a nest of lists of numbers. An integer literal parses
  to an \<open>int\<close>, a literal with a fraction to a \<open>float\<close>, which is modelled by the exact
  rational its decimal text denotes.
\<close>

datatype jval = JInt int | JFloat rat | JList "jval list"

definition is_json_ws :: "char \<Rightarrow> bool" where
  "is_json_ws c = (c = CHR '' '' \<or> c = CHR 0x09 \<or> c = CHR 0x0A \<or> c = CHR 0x0D)"

definition skip_ws :: "string \<Rightarrow> string" where
  "skip_ws s = dropWhile is_json_ws s"

definition nat_of_digits :: "string \<Rightarrow> nat" where
  "nat_of_digits ds = foldl (\<lambda>a c. 10 * a + digit_val c) 0 ds"

text \<open>
  \<^verbatim>\<open>NUMBER_RE = (-?(?:0|[1-9]\d*))(\.\d+)?([eE][-+]?\d+)?\<close> matched at a digit: the
  integer part is a single \<open>0\<close> or a maximal run of digits; a fraction needs a period
  and at least one digit. Returns the number and the text after it.
\<close>

definition scan_number :: "string \<Rightarrow> jval \<times> string" where
  "scan_number s =
     (let ip = (if take 1 s = ''0'' then ''0'' else takeWhile is_digit s);
          r = drop (length ip) s
      in case r of
           c # r1 \<Rightarrow>
             (let fr = takeWhile is_digit r1
              in if c = CHR ''.'' \<and> fr \<noteq> []
                 then (JFloat (of_nat (nat_of_digits ip)
                                + of_nat (nat_of_digits fr) / 10 ^ length fr),
                       drop (length fr) r1)
                 else (JInt (int (nat_of_digits ip)), r))
         | [] \<Rightarrow> (JInt (int (nat_of_digits ip)), r))"

lemma length_skip_ws: "length (skip_ws s) \<le> length s"
  by (simp add: skip_ws_def length_dropWhile_le)

lemma skip_ws_Cons_shorter: "skip_ws s = d # r \<Longrightarrow> length r < length s"
  using length_skip_ws [of s] by simp

text \<open>
  The scanner (\<open>scan_once\<close>) and the array loop (\<open>JSONArray\<close>) of the decoder. A
  character that starts no value of the sanitized alphabet is a \<open>JSONDecodeError\<close>. The
  test \<open>length r < length s\<close> in the array loop always holds (a value consumes at least
  one character, lemma \<open>scan_once_consumes\<close>); it is there for the termination proof.
\<close>

function scan_once :: "string \<Rightarrow> pyexc + (jval \<times> string)"
  and JSONArray :: "string \<Rightarrow> jval list \<Rightarrow> pyexc + (jval \<times> string)" where
  "scan_once [] = Inl (JSONDecodeError ''Expecting value'')"
| "scan_once (c # cs) =
     (if c = CHR ''['' then
        (case skip_ws cs of
           [] \<Rightarrow> JSONArray [] []
         | d # r \<Rightarrow> if d = CHR '']'' then Inr (JList [], r) else JSONArray (d # r) [])
      else if is_digit c then Inr (scan_number (c # cs))
      else Inl (JSONDecodeError ''Expecting value''))"
| "JSONArray s vals =
     (case scan_once s of
        Inl e \<Rightarrow> Inl e
      | Inr (v, r) \<Rightarrow>
          if length r < length s then
            (case skip_ws r of
               [] \<Rightarrow> Inl (JSONDecodeError ''Expecting ',' delimiter'')
             | d # r' \<Rightarrow>
                 if d = CHR '']'' then Inr (JList (vals @ [v]), r')
                 else if d = CHR '','' then JSONArray (skip_ws r') (vals @ [v])
                 else Inl (JSONDecodeError ''Expecting ',' delimiter''))
          else Inl (JSONDecodeError ''Expecting value''))"
  by pat_completeness auto

termination
proof (relation "measure (\<lambda>x. case x of Inl s \<Rightarrow> 2 * length s
                                       | Inr (s, vals) \<Rightarrow> 2 * length s + 1)", goal_cases)
  case 1
  show ?case by simp
next
  case (2 c cs)
  then show ?case by simp
next
  case (3 c cs d r)
  then show ?case using skip_ws_Cons_shorter [of cs d r] by simp
next
  case (4 s vals)
  show ?case by simp
next
  case (5 s vals x v r d r')
  then show ?case
    using skip_ws_Cons_shorter [of r d r'] length_skip_ws [of r'] by simp
qed

declare JSONArray.simps [simp del]

definition json_loads :: "string \<Rightarrow> pyexc + jval" where
  "json_loads s =
     (case scan_once (skip_ws s) of
        Inl e \<Rightarrow> Inl e
      | Inr (v, r) \<Rightarrow> if skip_ws r = [] then Inr v else Inl (JSONDecodeError ''Extra data''))"

section \<open>Object arrays of numpy\<close>

text \<open>
  \<open>np.array(v, dtype=object)\<close> on nested lists. The discovered shape is the leading run
  of dimensions on which the nesting is uniform: the length of the list, followed by the
  common prefix of the shapes of its elements; a scalar has the empty shape. Below that
  depth the elements stay Python objects (numbers or lists). The limit on the number of
  dimensions is not modelled: an expected grid has at most two.
\<close>

record nparray =
  shape :: "nat list"
  items :: "jval list"

fun common_prefix :: "nat list list \<Rightarrow> nat list" where
  "common_prefix [] = []"
| "common_prefix [s] = s"
| "common_prefix (s # t # ss) = longest_common_prefix s (common_prefix (t # ss))"

fun np_dims :: "jval \<Rightarrow> nat list" where
  "np_dims (JList xs) = length xs # common_prefix (map np_dims xs)"
| "np_dims (JInt i) = []"
| "np_dims (JFloat q) = []"

fun np_flat :: "nat \<Rightarrow> jval \<Rightarrow> jval list" where
  "np_flat 0 v = [v]"
| "np_flat (Suc d) (JList xs) = concat (map (np_flat d) xs)"
| "np_flat (Suc d) v = [v]"

definition np_array :: "jval \<Rightarrow> nparray" where
  "np_array v = \<lparr>shape = np_dims v, items = np_flat (length (np_dims v)) v\<rparr>"

text \<open>\<open>a.tolist()\<close>: the nested lists of the array's shape over its elements.\<close>

fun nest :: "nat list \<Rightarrow> jval list \<Rightarrow> jval" where
  "nest [] xs = (case xs of [] \<Rightarrow> JList [] | x # _ \<Rightarrow> x)"
| "nest (n # sh) xs =
     JList (map (\<lambda>i. nest sh (take (prod_list sh) (drop (i * prod_list sh) xs))) [0..<n])"

definition tolist :: "nparray \<Rightarrow> jval" where
  "tolist a = nest (shape a) (items a)"

text \<open>
  Python's \<open>==\<close> on the objects an array holds: numbers compare by value whatever their
  type, lists compare element by element, a list never equals a number.
\<close>

fun py_eq :: "jval \<Rightarrow> jval \<Rightarrow> bool"
  and py_eq_list :: "jval list \<Rightarrow> jval list \<Rightarrow> bool" where
  "py_eq (JInt a) (JInt b) = (a = b)"
| "py_eq (JInt a) (JFloat q) = (of_int a = q)"
| "py_eq (JFloat p) (JInt b) = (p = of_int b)"
| "py_eq (JFloat p) (JFloat q) = (p = q)"
| "py_eq (JList xs) (JList ys) = py_eq_list xs ys"
| "py_eq (JList xs) (JInt b) = False"
| "py_eq (JList xs) (JFloat q) = False"
| "py_eq (JInt a) (JList ys) = False"
| "py_eq (JFloat p) (JList ys) = False"
| "py_eq_list [] [] = True"
| "py_eq_list (x # xs) (y # ys) = (py_eq x y \<and> py_eq_list xs ys)"
| "py_eq_list [] (y # ys) = False"
| "py_eq_list (x # xs) [] = False"

text \<open>\<open>(a == b).all()\<close> for two arrays of one shape: every pair of elements is equal.\<close>

definition all_equal :: "nparray \<Rightarrow> nparray \<Rightarrow> bool" where
  "all_equal a b = list_all (\<lambda>(x, y). py_eq x y) (zip (items a) (items b))"

section \<open>Sandboxed verifier (evaluator.py)\<close>

type_synonym grid = "int list list"

record example =
  ex_input :: grid
  ex_output :: grid

text \<open>
  A solver is untrusted code: it gets a grid, may keep state of its own between calls
  (module globals), and either returns a value or raises.
\<close>

type_synonym 's program = "'s \<Rightarrow> grid \<Rightarrow> (pyexc + pyval) \<times> 's"

text \<open>
  \<open>copy.deepcopy(grid_in)\<close>: a fresh list of fresh rows with the same cells. At the level
  of values the copy is the grid; the section on the object store has the references.
\<close>

definition deepcopy :: "grid \<Rightarrow> grid" where
  "deepcopy g = map (\<lambda>row. map (\<lambda>x. x) row) g"

definition grid_value :: "grid \<Rightarrow> jval" where
  "grid_value g = JList (map (\<lambda>row. JList (map JInt row)) g)"

text \<open>
  \<^verbatim>\<open>
  def _run_and_sanitize(program, grid_in):
      result = program(copy.deepcopy(grid_in))
      dumped = json.dumps(result).replace("true","1").replace("false","0")
      if _UNSAFE_CHARS_RE.search(dumped):
          raise ValueError(f"Invalid output from user code: {dumped[:200]}")
      parsed = json.loads(dumped)
      return np.array(parsed, dtype=object)
  \<close>
\<close>

text \<open>The lines after the call: from the solver's result to the array that is compared.\<close>

definition sanitize :: "pyval \<Rightarrow> pyexc + nparray" where
  "sanitize result =
     (case json_dumps result of
        Inl e \<Rightarrow> Inl e
      | Inr text \<Rightarrow>
          (let dumped = str_replace ''false'' ''0'' (str_replace ''true'' ''1'' text)
           in if UNSAFE_CHARS_RE_search dumped
              then Inl (ValueError (''Invalid output from user code: '' @ take 200 dumped))
              else (case json_loads dumped of
                      Inl e \<Rightarrow> Inl e
                    | Inr parsed \<Rightarrow> Inr (np_array parsed))))"

definition run_and_sanitize :: "'s program \<Rightarrow> 's \<Rightarrow> grid \<Rightarrow> (pyexc + nparray) \<times> 's" where
  "run_and_sanitize program s grid_in =
     (case program s (deepcopy grid_in) of
        (Inl e, s') \<Rightarrow> (Inl e, s')
      | (Inr result, s') \<Rightarrow> (sanitize result, s'))"

text \<open>
  The body of the loop of \<open>_verify_split\<close> has three outcomes for a pair: the comparison
  succeeds, the comparison fails (with the solver's array for the diagnostic), or the
  \<^verbatim>\<open>except Exception\<close> clause catches a fault. A fault that is not an \<open>Exception\<close>
  is not caught and leaves the function; that is the \<open>Inl\<close> result.
\<close>

datatype verdict = Correct | Incorrect jval | Errored pyexc

definition compare_arrays :: "nparray \<Rightarrow> grid \<Rightarrow> verdict" where
  "compare_arrays user_arr expected =
     (let want_arr = np_array (grid_value expected)
      in if shape user_arr = shape want_arr \<and> all_equal user_arr want_arr
         then Correct
         else Incorrect (tolist user_arr))"

definition except_clause :: "pyexc \<Rightarrow> pyexc + verdict" where
  "except_clause e = (if exc_ordinary e then Inr (Errored e) else Inl e)"

definition try_pair :: "'s program \<Rightarrow> 's \<Rightarrow> example \<Rightarrow> (pyexc + verdict) \<times> 's" where
  "try_pair program s ex =
     (case run_and_sanitize program s (ex_input ex) of
        (Inr user_arr, s') \<Rightarrow> (Inr (compare_arrays user_arr (ex_output ex)), s')
      | (Inl e, s') \<Rightarrow> (except_clause e, s'))"

text \<open>
  \<open>traceback.format_exc()\<close>: the header, the frames and the line of the exception. The
  frame lines depend on where the files are; they are left out.
\<close>

definition format_exc :: "pyexc \<Rightarrow> string" where
  "format_exc e =
     ''Traceback (most recent call last):'' @ [CHR 0x0A] @ exc_type e
       @ (if exc_msg e = [] then [] else '': '' @ exc_msg e) @ [CHR 0x0A]"

text \<open>
  The diagnostic holds the pair's own grids (\<open>ex["input"]\<close>, \<open>ex["output"]\<close>), not copies:
  grids where the pairs are values, references where they live in the object store.
\<close>

record 'g detail =
  d_input :: 'g
  d_expected :: 'g
  d_actual :: "jval option"

type_synonym 'g tally = "nat \<times> nat \<times> 'g detail option \<times> string"

fun record_verdict :: "'g \<Rightarrow> 'g \<Rightarrow> verdict \<Rightarrow> 'g tally \<Rightarrow> 'g tally" where
  "record_verdict inp outp Correct (right, wrong, first_wrong_detail, err_tb) =
     (right + 1, wrong, first_wrong_detail, err_tb)"
| "record_verdict inp outp (Incorrect actual) (right, wrong, first_wrong_detail, err_tb) =
     (right, wrong + 1,
      (if first_wrong_detail = None
       then Some \<lparr>d_input = inp, d_expected = outp, d_actual = Some actual\<rparr>
       else first_wrong_detail),
      err_tb)"
| "record_verdict inp outp (Errored e) (right, wrong, first_wrong_detail, err_tb) =
     (right, wrong + 1,
      (if first_wrong_detail = None
       then Some \<lparr>d_input = inp, d_expected = outp, d_actual = None\<rparr>
       else first_wrong_detail),
      (if err_tb = [] then format_exc e else err_tb))"

fun verify_loop ::
    "'s program \<Rightarrow> example list \<Rightarrow> grid tally \<Rightarrow> 's \<Rightarrow> (pyexc + grid tally) \<times> 's" where
  "verify_loop program [] acc s = (Inr acc, s)"
| "verify_loop program (ex # rest) acc s =
     (case try_pair program s ex of
        (Inl e, s') \<Rightarrow> (Inl e, s')
      | (Inr v, s') \<Rightarrow>
          verify_loop program rest (record_verdict (ex_input ex) (ex_output ex) v acc) s')"

definition verify_split ::
    "'s program \<Rightarrow> example list \<Rightarrow> 's \<Rightarrow> (pyexc + grid tally) \<times> 's" where
  "verify_split program pairs s = verify_loop program pairs (0, 0, None, []) s"

section \<open>Solvers used in the statements\<close>

text \<open>
  A solver none of whose calls raises a fault outside \<open>Exception\<close>, and a solver every
  call of which raises (a fault that is an \<open>Exception\<close>).
\<close>

definition raises_only_exceptions :: "'s program \<Rightarrow> bool" where
  "raises_only_exceptions program =
     (\<forall>s g e s'. program s g = (Inl e, s') \<longrightarrow> exc_ordinary e)"

definition raises_unconditionally :: "'s program \<Rightarrow> bool" where
  "raises_unconditionally program =
     (\<forall>s g. \<exists>e s'. program s g = (Inl e, s') \<and> exc_ordinary e)"

text \<open>\<^verbatim>\<open>def p(g): raise SystemExit\<close> and \<^verbatim>\<open>def p(g): return 1 // 0\<close>.\<close>

definition solver_exit :: "unit program" where
  "solver_exit s g = (Inl SystemExit, s)"

definition solver_crash :: "unit program" where
  "solver_crash s g = (Inl (PyExc True ''ZeroDivisionError'' ''integer division or modulo by zero''), s)"

text \<open>\<^verbatim>\<open>def p(g): return copy.deepcopy(g)\<close>, and a solver with a constant answer.\<close>

definition py_grid :: "grid \<Rightarrow> pyval" where
  "py_grid g = PyList (map (\<lambda>row. PyList (map PyInt row)) g)"

definition solver_copy :: "unit program" where
  "solver_copy s g = (Inr (py_grid (deepcopy g)), s)"

definition solver_const :: "pyval \<Rightarrow> unit program" where
  "solver_const v s g = (Inr v, s)"

text \<open>
  A solver wrapped so that its state also logs, in order, the grids it was called with.
\<close>

definition logging :: "'s program \<Rightarrow> (grid list \<times> 's) program" where
  "logging program = (\<lambda>(seen, s) g. case program s g of (r, s') \<Rightarrow> (r, (seen @ [g], s')))"

text \<open>The one pair of the built-in task 0 of loader.py.\<close>

definition example_zero :: example where
  "example_zero = \<lparr>ex_input = [[0]], ex_output = [[0]]\<rparr>"

section \<open>The comparison the specification describes\<close>

text \<open>
  The specification's words for step 4 of the verifier: the parsed result and the expected
  grid have the same number of rows, every corresponding row has the same number of
  columns, and every corresponding cell is numerically equal.
\<close>

fun cell_equal :: "jval \<Rightarrow> int \<Rightarrow> bool" where
  "cell_equal (JInt a) x = (a = x)"
| "cell_equal (JFloat q) x = (q = of_int x)"
| "cell_equal (JList xs) x = False"

fun row_identical :: "jval \<Rightarrow> int list \<Rightarrow> bool" where
  "row_identical (JList cells) want =
     (length cells = length want \<and> list_all (\<lambda>(c, x). cell_equal c x) (zip cells want))"
| "row_identical (JInt a) want = False"
| "row_identical (JFloat q) want = False"

fun grids_identical :: "jval \<Rightarrow> grid \<Rightarrow> bool" where
  "grids_identical (JList rows) expected =
     (length rows = length expected
      \<and> list_all (\<lambda>(row, want). row_identical row want) (zip rows expected))"
| "grids_identical (JInt a) expected = False"
| "grids_identical (JFloat q) expected = False"

section \<open>Numeric answers of a solver\<close>

text \<open>
  The float whose value is the integer \<open>x\<close>, for \<open>x\<close> of magnitude up to \<open>2^53\<close> only. In
  that range every integer is a double, \<open>float(x)\<close> is exact, and its \<open>repr\<close> is the digits
  of \<open>x\<close> in fixed notation with the single fraction digit 0. Past \<open>2^53\<close> not every
  integer is a double (\<open>float(2^53 + 1)\<close> is \<open>2^53\<close>), and from \<open>10^16\<close> on the \<open>repr\<close> is in
  exponent notation (\<open>FloatSci\<close>); no statement uses \<open>py_float\<close> there.
\<close>

definition py_float :: "int \<Rightarrow> pyfloat" where
  "py_float x = FloatFixed (x < 0) (nat \<bar>x\<bar>) 0 []"

text \<open>
  An answer grid in which each cell is marked: \<open>(True, x)\<close> is the float \<open>float(x)\<close>,
  \<open>(False, x)\<close> is the int \<open>x\<close>. The unmarked grid is what the answer is compared with.
\<close>

type_synonym marked_grid = "(bool \<times> int) list list"

definition cell_py :: "bool \<times> int \<Rightarrow> pyval" where
  "cell_py c = (if fst c then PyFloat (py_float (snd c)) else PyInt (snd c))"

definition py_marked :: "marked_grid \<Rightarrow> pyval" where
  "py_marked m = PyList (map (\<lambda>row. PyList (map cell_py row)) m)"

definition unmarked :: "marked_grid \<Rightarrow> grid" where
  "unmarked m = map (\<lambda>row. map snd row) m"

text \<open>
  The cells such an answer may have: not negative, and below \<open>2^53\<close> where the cell is a
  float (the range in which \<open>py_float\<close> is a double and its \<open>repr\<close>).
\<close>

definition small_cells :: "marked_grid \<Rightarrow> bool" where
  "small_cells m =
     list_all (\<lambda>row. list_all (\<lambda>c. 0 \<le> snd c \<and> (fst c \<longrightarrow> snd c < 2 ^ 53)) row) m"

text \<open>What the text of such an answer is, and what it parses to.\<close>

definition cell_text :: "bool \<times> int \<Rightarrow> string" where
  "cell_text c = (if fst c then dec (nat (snd c)) @ ''.0'' else dec (nat (snd c)))"

definition cell_parsed :: "bool \<times> int \<Rightarrow> jval" where
  "cell_parsed c = (if fst c then JFloat (of_int (snd c)) else JInt (snd c))"

definition array_text :: "string list \<Rightarrow> string" where
  "array_text ts = ''['' @ join_str '', '' ts @ '']''"

text \<open>
  A text parses as a value when it starts with no whitespace and the scanner reads
  exactly it, whatever follows, provided what follows is the end of the text, a comma or
  a closing bracket.
\<close>

definition delimited :: "string \<Rightarrow> bool" where
  "delimited rest = (case rest of [] \<Rightarrow> True | c # _ \<Rightarrow> c = CHR '','' \<or> c = CHR '']'')"

definition parses_as :: "string \<Rightarrow> jval \<Rightarrow> bool" where
  "parses_as t v =
     (t \<noteq> [] \<and> \<not> is_json_ws (hd t)
      \<and> (\<forall>rest. delimited rest \<longrightarrow> scan_once (t @ rest) = Inr (v, rest)))"

definition safe_text :: "string \<Rightarrow> bool" where
  "safe_text t = (\<forall>c\<in>set t. \<not> unsafe_char c)"

definition marked_text :: "marked_grid \<Rightarrow> string" where
  "marked_text m = array_text (map (\<lambda>row. array_text (map cell_text row)) m)"

definition marked_parsed :: "marked_grid \<Rightarrow> jval" where
  "marked_parsed m = JList (map (\<lambda>row. JList (map cell_parsed row)) m)"

text \<open>
  A solver that returns a deep copy of the grid it is given, whatever it does to its own
  state, and the grids of non-negative cells.
\<close>

definition returns_copy :: "'s program \<Rightarrow> bool" where
  "returns_copy program = (\<forall>s g. \<exists>s'. program s g = (Inr (py_grid (deepcopy g)), s'))"

definition nonneg_grid :: "grid \<Rightarrow> bool" where
  "nonneg_grid g = list_all (\<lambda>row. list_all (\<lambda>x. 0 \<le> x) row) g"

section \<open>Task repository (loader.py)\<close>

text \<open>
  \<^verbatim>\<open>
  def _task_id_str(task_id):
      tid = int(task_id)
      return f"{tid:03d}"
  \<close>
  The format \<open>03d\<close> pads with zeros to width 3, the sign included.
\<close>

definition zero_pad :: "nat \<Rightarrow> string \<Rightarrow> string" where
  "zero_pad w t = replicate (w - length t) CHR ''0'' @ t"

definition task_id_str :: "int \<Rightarrow> string" where
  "task_id_str tid =
     (if tid < 0 then CHR ''-'' # zero_pad 2 (dec (nat (- tid))) else zero_pad 3 (dec (nat tid)))"

text \<open>
  A task is the dictionary read from its JSON document: a split name and its pairs. Every
  key is optional (\<open>tjson.get("train", [])\<close>).
\<close>

type_synonym task = "string \<rightharpoonup> example list"

definition get_pairs :: "task \<Rightarrow> string \<Rightarrow> example list" where
  "get_pairs tjson key = (case tjson key of None \<Rightarrow> [] | Some pairs \<Rightarrow> pairs)"

definition TASK_ZERO :: task where
  "TASK_ZERO = [''train'' \<mapsto> [example_zero], ''test'' \<mapsto> [], ''arc-gen'' \<mapsto> []]"

abbreviation FileNotFoundError :: "string \<Rightarrow> pyexc" where
  "FileNotFoundError msg \<equiv> PyExc True ''FileNotFoundError'' msg"

text \<open>
  \<open>load_task\<close>: task 0 is built in; any other id is read from the first candidate path
  that exists. The storage is the map from an id to the document found there.
\<close>

definition load_task :: "(int \<rightharpoonup> task) \<Rightarrow> int \<Rightarrow> pyexc + task" where
  "load_task storage task_id =
     (if task_id = 0 then Inr TASK_ZERO
      else case storage task_id of
             Some t \<Rightarrow> Inr t
           | None \<Rightarrow>
               Inl (FileNotFoundError
                      (''task'' @ task_id_str task_id
                         @ ''.json not found in data/tasks or Kaggle input dir'')))"

section \<open>Solver loader (evaluator.py, compare_solutions.py)\<close>

text \<open>
  A solver file: its size in bytes and what executing it does. Executing raises, or leaves
  a module in which \<open>p\<close> is absent, not callable, or a solver with its initial state.
\<close>

datatype 's entry = NoEntry | NotCallable | Callable "'s program"

datatype 's unit_code = ExecRaises pyexc | ExecDefines "'s entry" 's

record 's source_file =
  file_bytes :: nat
  file_code :: "'s unit_code"

type_synonym 's file_system = "string \<rightharpoonup> 's source_file"

text \<open>\<open>sys.modules\<close>: the module registered under each name (the file it was made from).\<close>

type_synonym 's sys_modules = "string \<rightharpoonup> 's source_file"

text \<open>\<open>os.path.join\<close> of a directory with a relative name, and \<open>os.path.basename\<close>.\<close>

definition path_join :: "string \<Rightarrow> string \<Rightarrow> string" where
  "path_join a b = (if a = [] \<or> last a = CHR ''/'' then a @ b else a @ ''/'' @ b)"

definition basename :: "string \<Rightarrow> string" where
  "basename p = rev (takeWhile (\<lambda>c. c \<noteq> CHR ''/'') (rev p))"

text \<open>
  The two loaders differ in the directory and in the module name only; from the test
  that the file exists on they are the same text:
  \<^verbatim>\<open>
      if not os.path.exists(file_path):
          raise FileNotFoundError(f"Missing solver file: {file_path}")
      spec = importlib.util.spec_from_file_location(mod_name, file_path)
      mod = sys.modules[mod_name] = importlib.util.module_from_spec(spec)
      spec.loader.exec_module(mod)
      if not hasattr(mod, "p"):
          raise AttributeError(f"{file_path} does not define function p(g).")
      prog = getattr(mod, "p")
      if not callable(prog):
          raise TypeError(f"p in {file_path} is not callable.")
      return prog, file_path
  \<close>
  The module is registered under its name before it is executed.
\<close>

definition load_module ::
    "'s file_system \<Rightarrow> 's sys_modules \<Rightarrow> string \<Rightarrow> string
     \<Rightarrow> (pyexc + ('s program \<times> 's \<times> string)) \<times> 's sys_modules" where
  "load_module fs modules mod_name file_path =
     (case fs file_path of
        None \<Rightarrow> (Inl (FileNotFoundError (''Missing solver file: '' @ file_path)), modules)
      | Some f \<Rightarrow>
          (let modules' = modules(mod_name \<mapsto> f)
           in case file_code f of
                ExecRaises e \<Rightarrow> (Inl e, modules')
              | ExecDefines NoEntry s0 \<Rightarrow>
                  (Inl (PyExc True ''AttributeError''
                          (file_path @ '' does not define function p(g).'')), modules')
              | ExecDefines NotCallable s0 \<Rightarrow>
                  (Inl (TypeError (''p in '' @ file_path @ '' is not callable.'')), modules')
              | ExecDefines (Callable prog) s0 \<Rightarrow> (Inr (prog, s0, file_path), modules')))"

definition solver_path :: "string \<Rightarrow> int \<Rightarrow> string" where
  "solver_path src_dir task_id = path_join src_dir (''task'' @ task_id_str task_id @ ''.py'')"

text \<open>\<open>mod_name = f"task{tid}"\<close> in evaluator.py, for the one directory \<open>SUBMISSION_DIR\<close>.\<close>

definition mod_name_submission :: "int \<Rightarrow> string" where
  "mod_name_submission task_id = ''task'' @ task_id_str task_id"

definition import_solver ::
    "string \<Rightarrow> 's file_system \<Rightarrow> 's sys_modules \<Rightarrow> int
     \<Rightarrow> (pyexc + ('s program \<times> 's \<times> string)) \<times> 's sys_modules" where
  "import_solver SUBMISSION_DIR fs modules task_id =
     load_module fs modules (mod_name_submission task_id) (solver_path SUBMISSION_DIR task_id)"

text \<open>\<open>mod_name = f"cmp_{os.path.basename(src_dir)}_{tid}"\<close> in compare_solutions.py.\<close>

definition mod_name_from :: "string \<Rightarrow> int \<Rightarrow> string" where
  "mod_name_from src_dir task_id = ''cmp_'' @ basename src_dir @ ''_'' @ task_id_str task_id"

definition import_solver_from ::
    "'s file_system \<Rightarrow> 's sys_modules \<Rightarrow> string \<Rightarrow> int
     \<Rightarrow> (pyexc + ('s program \<times> 's \<times> string)) \<times> 's sys_modules" where
  "import_solver_from fs modules src_dir task_id =
     load_module fs modules (mod_name_from src_dir task_id) (solver_path src_dir task_id)"

section \<open>Orchestrators (eval_all.py, compare_solutions.py)\<close>

text \<open>
  What the orchestrators read: the task documents, the solver files, the submission
  directory of evaluator.py, and \<open>os.path.relpath(src_dir, REPO_ROOT)\<close>, which only
  names the file in the report.
\<close>

record 's world =
  storage :: "int \<rightharpoonup> task"
  fs :: "'s file_system"
  SUBMISSION_DIR :: string
  relpath :: "string \<Rightarrow> string"

text \<open>The entry of the report for one task (\<open>meta\<close>, its key \<open>file\<close> as \<open>meta_file\<close>);
  compare_solutions.py has no task id in it.\<close>

record split_count =
  n_pass :: nat
  n_fail :: nat

record meta =
  task_id :: "int option"
  meta_file :: string
  exists :: bool
  bytes :: nat
  score :: real
  passed :: bool
  arc_agi :: split_count
  arc_gen :: split_count
  error :: string

text \<open>\<open>get_file_bytes\<close> of score.py opens the file and counts its bytes.\<close>

definition get_file_bytes :: "'s file_system \<Rightarrow> string \<Rightarrow> pyexc + nat" where
  "get_file_bytes files path =
     (case files path of
        None \<Rightarrow>
          Inl (FileNotFoundError (''[Errno 2] No such file or directory: '' @ path))
      | Some f \<Rightarrow> Inr (file_bytes f))"

text \<open>
  \<^verbatim>\<open>
      except Exception as e:
          meta["error"] = f"{type(e).__name__}: {e}"
          return meta
  \<close>
  A fault that is not an \<open>Exception\<close> leaves \<open>_eval_one\<close>.
\<close>

definition on_exception :: "pyexc \<Rightarrow> meta \<Rightarrow> pyexc + meta" where
  "on_exception e m =
     (if exc_ordinary e then Inr (m\<lparr>error := exc_type e @ '': '' @ exc_msg e\<rparr>) else Inl e)"

text \<open>
  The \<open>try\<close> block of \<open>_eval_one\<close> in eval_all.py, from the solver that was loaded on:
  both splits are verified with the same solver, the file is measured and scored, and the
  entry is updated.
\<close>

definition run_splits ::
    "'s file_system \<Rightarrow> 's program \<Rightarrow> 's \<Rightarrow> string \<Rightarrow> example list \<Rightarrow> example list
     \<Rightarrow> pyexc + (nat \<times> nat \<times> string) \<times> (nat \<times> nat \<times> string) \<times> nat" where
  "run_splits files program s0 file_path agi_pairs gen_pairs =
     (case verify_split program agi_pairs s0 of
        (Inl e, s1) \<Rightarrow> Inl e
      | (Inr (agi_r, agi_w, agi_d, agi_tb), s1) \<Rightarrow>
          (case verify_split program gen_pairs s1 of
             (Inl e, s2) \<Rightarrow> Inl e
           | (Inr (gen_r, gen_w, gen_d, gen_tb), s2) \<Rightarrow>
               (case get_file_bytes files file_path of
                  Inl e \<Rightarrow> Inl e
                | Inr nbytes \<Rightarrow> Inr ((agi_r, agi_w, agi_tb), (gen_r, gen_w, gen_tb), nbytes))))"

text \<open>
  \<open>_eval_one(task_id, file_exists)\<close> of eval_all.py. The pairs are loaded, and the fail
  counts set to their numbers, before the test on \<open>file_exists\<close>.
\<close>

definition eval_all_eval_one ::
    "'s world \<Rightarrow> 's sys_modules \<Rightarrow> int \<Rightarrow> bool \<Rightarrow> (pyexc + meta) \<times> 's sys_modules" where
  "eval_all_eval_one w modules tid file_exists =
     (let meta0 =
            \<lparr>task_id = Some tid,
             meta_file = path_join ''submission'' (''task'' @ task_id_str tid @ ''.py''),
             exists = file_exists, bytes = 0, score = 0.001, passed = False,
             arc_agi = \<lparr>n_pass = 0, n_fail = 0\<rparr>, arc_gen = \<lparr>n_pass = 0, n_fail = 0\<rparr>,
             error = []\<rparr>
      in case load_task (storage w) tid of
           Inl e \<Rightarrow> (Inl e, modules)
         | Inr tjson \<Rightarrow>
             (let agi_pairs = get_pairs tjson ''train'' @ get_pairs tjson ''test'';
                  gen_pairs = get_pairs tjson ''arc-gen'';
                  meta1 = meta0\<lparr>arc_agi := \<lparr>n_pass = 0, n_fail = length agi_pairs\<rparr>,
                                arc_gen := \<lparr>n_pass = 0, n_fail = length gen_pairs\<rparr>\<rparr>
              in if \<not> file_exists then (Inr meta1, modules)
                 else (case import_solver (SUBMISSION_DIR w) (fs w) modules tid of
                         (Inl e, modules') \<Rightarrow> (on_exception e meta1, modules')
                       | (Inr (program, s0, file_path), modules') \<Rightarrow>
                           (case run_splits (fs w) program s0 file_path agi_pairs gen_pairs of
                              Inl e \<Rightarrow> (on_exception e meta1, modules')
                            | Inr ((agi_r, agi_w, agi_tb), (gen_r, gen_w, gen_tb), nbytes) \<Rightarrow>
                                (let passed_all = (agi_w = 0 \<and> gen_w = 0)
                                 in (Inr (meta1\<lparr>bytes := nbytes,
                                                score := score_for_length (int nbytes) passed_all,
                                                passed := passed_all,
                                                arc_agi := \<lparr>n_pass = agi_r, n_fail = agi_w\<rparr>,
                                                arc_gen := \<lparr>n_pass = gen_r, n_fail = gen_w\<rparr>,
                                                error := (if agi_tb \<noteq> [] then agi_tb else gen_tb)\<rparr>),
                                     modules'))))))"

text \<open>
  \<open>_eval_one(src_dir, task_id)\<close> of compare_solutions.py. The test that the file exists
  comes first and returns the entry as it was created; the pairs are loaded after it.
\<close>

definition compare_eval_one ::
    "'s world \<Rightarrow> 's sys_modules \<Rightarrow> string \<Rightarrow> int \<Rightarrow> (pyexc + meta) \<times> 's sys_modules" where
  "compare_eval_one w modules src_dir tid =
     (let meta0 =
            \<lparr>task_id = None,
             meta_file = path_join (relpath w src_dir) (''task'' @ task_id_str tid @ ''.py''),
             exists = False, bytes = 0, score = 0.001, passed = False,
             arc_agi = \<lparr>n_pass = 0, n_fail = 0\<rparr>, arc_gen = \<lparr>n_pass = 0, n_fail = 0\<rparr>,
             error = []\<rparr>
      in if fs w (solver_path src_dir tid) = None then (Inr meta0, modules)
         else (let meta1 = meta0\<lparr>exists := True\<rparr>
               in case load_task (storage w) tid of
                    Inl e \<Rightarrow> (Inl e, modules)
                  | Inr tjson \<Rightarrow>
                      (let agi_pairs = get_pairs tjson ''train'' @ get_pairs tjson ''test'';
                           gen_pairs = get_pairs tjson ''arc-gen''
                       in case import_solver_from (fs w) modules src_dir tid of
                            (Inl e, modules') \<Rightarrow> (on_exception e meta1, modules')
                          | (Inr (program, s0, file_path), modules') \<Rightarrow>
                              (case run_splits (fs w) program s0 file_path agi_pairs gen_pairs of
                                 Inl e \<Rightarrow> (on_exception e meta1, modules')
                               | Inr ((agi_r, agi_w, agi_tb), (gen_r, gen_w, gen_tb), nbytes) \<Rightarrow>
                                   (let passed_all = (agi_w = 0 \<and> gen_w = 0)
                                    in (Inr (meta1\<lparr>passed := passed_all,
                                                   bytes := nbytes,
                                                   score := score_for_length (int nbytes) passed_all,
                                                   arc_agi := \<lparr>n_pass = agi_r, n_fail = agi_w\<rparr>,
                                                   arc_gen := \<lparr>n_pass = gen_r, n_fail = gen_w\<rparr>\<rparr>),
                                        modules'))))))"

text \<open>
  The pairs of a task by split, as both orchestrators count them, and worlds for the
  statements: one task and no solver file anywhere (the repository root being \<open>/repo\<close>),
  and one folder name under two parents.
\<close>

definition agi_pairs_of :: "task \<Rightarrow> example list" where
  "agi_pairs_of tjson = get_pairs tjson ''train'' @ get_pairs tjson ''test''"

definition gen_pairs_of :: "task \<Rightarrow> example list" where
  "gen_pairs_of tjson = get_pairs tjson ''arc-gen''"

definition sample_task :: task where
  "sample_task = [''train'' \<mapsto> [example_zero, example_zero], ''arc-gen'' \<mapsto> [example_zero]]"

definition bare_world :: "unit world" where
  "bare_world =
     \<lparr>storage = [1 \<mapsto> sample_task], fs = Map.empty, SUBMISSION_DIR = ''/repo/submission'',
      relpath = drop (length ''/repo/'')\<rparr>"

definition copy_file :: "unit source_file" where
  "copy_file = \<lparr>file_bytes = 40, file_code = ExecDefines (Callable solver_copy) ()\<rparr>"

definition crash_file :: "unit source_file" where
  "crash_file = \<lparr>file_bytes = 21, file_code = ExecDefines (Callable solver_crash) ()\<rparr>"

definition two_parents :: "unit file_system" where
  "two_parents =
     [''/repo/a/sub/task001.py'' \<mapsto> copy_file, ''/repo/b/sub/task001.py'' \<mapsto> crash_file]"

section \<open>Grids in the object store\<close>

text \<open>
  A Python list is an object: a grid is a list whose items refer to its rows, and two
  names may refer to one list. The store holds the objects made so far, each at its
  address; a new object goes at the end, and nothing is ever removed. The cells are ints,
  which cannot be changed in place.
\<close>

type_synonym addr = nat

datatype obj = Row "int list" | Grid "addr list"

type_synonym heap = "obj list"

definition lookup :: "heap \<Rightarrow> addr \<Rightarrow> obj option" where
  "lookup h a = (if a < length h then Some (h ! a) else None)"

definition read_row :: "heap \<Rightarrow> addr \<Rightarrow> int list option" where
  "read_row h r = (case lookup h r of Some (Row xs) \<Rightarrow> Some xs | _ \<Rightarrow> None)"

text \<open>The grid an address stands for, if the object there is a list of rows of ints.\<close>

definition read_grid :: "heap \<Rightarrow> addr \<Rightarrow> grid option" where
  "read_grid h a =
     (case lookup h a of Some (Grid rs) \<Rightarrow> those (map (read_row h) rs) | _ \<Rightarrow> None)"

definition is_grid :: "heap \<Rightarrow> addr \<Rightarrow> bool" where
  "is_grid h a = (read_grid h a \<noteq> None)"

text \<open>
  \<open>copy.deepcopy\<close> of a list makes a new empty list, enters it in the memo under the
  identity of the original, and appends the copy of each item; an item already in the
  memo is not copied again, so rows shared in the original are shared in the copy. The
  copy of a row is a new list of the same ints. A list nested deeper than a grid is
  outside this model (\<open>None\<close>).
\<close>

fun copy_rows :: "heap \<Rightarrow> (addr \<times> addr) list \<Rightarrow> addr list \<Rightarrow> (addr list \<times> heap) option" where
  "copy_rows h memo [] = Some ([], h)"
| "copy_rows h memo (r # rs) =
     (case map_of memo r of
        Some y \<Rightarrow>
          (case copy_rows h memo rs of
             None \<Rightarrow> None
           | Some (ys, h') \<Rightarrow> Some (y # ys, h'))
      | None \<Rightarrow>
          (case lookup h r of
             Some (Row xs) \<Rightarrow>
               (case copy_rows (h @ [Row xs]) ((r, length h) # memo) rs of
                  None \<Rightarrow> None
                | Some (ys, h') \<Rightarrow> Some (length h # ys, h'))
           | _ \<Rightarrow> None))"

definition deepcopy_ref :: "heap \<Rightarrow> addr \<Rightarrow> (addr \<times> heap) option" where
  "deepcopy_ref h x =
     (case lookup h x of
        Some (Grid rs) \<Rightarrow>
          (let y = length h
           in case copy_rows (h @ [Grid []]) [(x, y)] rs of
                None \<Rightarrow> None
              | Some (ys, h') \<Rightarrow> Some (y, h'[y := Grid ys]))
      | Some (Row xs) \<Rightarrow> Some (length h, h @ [Row xs])
      | None \<Rightarrow> None)"

text \<open>
  A solver in the store: it gets the address of its argument, may change and make
  objects, and returns a value (what its result holds when it returns, which is when
  \<open>json.dumps\<close> reads it) or raises.
\<close>

type_synonym 's hprogram = "'s \<Rightarrow> heap \<Rightarrow> addr \<Rightarrow> ((pyexc + pyval) \<times> 's) \<times> heap"

text \<open>A pair of the repository: the addresses of \<open>ex["input"]\<close> and \<open>ex["output"]\<close>.\<close>

record example_ref =
  input_ref :: addr
  output_ref :: addr

text \<open>
  \<open>_run_and_sanitize\<close> and the loop of \<open>_verify_split\<close> once more, with the store: the
  copy is made in the store and its address is what the solver gets;
  \<open>np.array(ex["output"])\<close> reads the store as the solver left it.
\<close>

definition run_and_sanitize_ref ::
    "'s hprogram \<Rightarrow> 's \<Rightarrow> heap \<Rightarrow> addr \<Rightarrow> (((pyexc + nparray) \<times> 's) \<times> heap) option" where
  "run_and_sanitize_ref program s h grid_in =
     (case deepcopy_ref h grid_in of
        None \<Rightarrow> None
      | Some (c, h1) \<Rightarrow>
          (case program s h1 c of
             ((Inl e, s'), h2) \<Rightarrow> Some ((Inl e, s'), h2)
           | ((Inr result, s'), h2) \<Rightarrow> Some ((sanitize result, s'), h2)))"

definition try_pair_ref ::
    "'s hprogram \<Rightarrow> 's \<Rightarrow> heap \<Rightarrow> example_ref \<Rightarrow> (((pyexc + verdict) \<times> 's) \<times> heap) option" where
  "try_pair_ref program s h ex =
     (case run_and_sanitize_ref program s h (input_ref ex) of
        None \<Rightarrow> None
      | Some ((Inr user_arr, s'), h') \<Rightarrow>
          (case read_grid h' (output_ref ex) of
             None \<Rightarrow> None
           | Some expected \<Rightarrow> Some ((Inr (compare_arrays user_arr expected), s'), h'))
      | Some ((Inl e, s'), h') \<Rightarrow> Some ((except_clause e, s'), h'))"

fun verify_loop_ref ::
    "'s hprogram \<Rightarrow> example_ref list \<Rightarrow> addr tally \<Rightarrow> 's \<Rightarrow> heap
     \<Rightarrow> (((pyexc + addr tally) \<times> 's) \<times> heap) option" where
  "verify_loop_ref program [] acc s h = Some ((Inr acc, s), h)"
| "verify_loop_ref program (ex # rest) acc s h =
     (case try_pair_ref program s h ex of
        None \<Rightarrow> None
      | Some ((Inl e, s'), h') \<Rightarrow> Some ((Inl e, s'), h')
      | Some ((Inr v, s'), h') \<Rightarrow>
          verify_loop_ref program rest (record_verdict (input_ref ex) (output_ref ex) v acc) s' h')"

definition verify_split_ref ::
    "'s hprogram \<Rightarrow> example_ref list \<Rightarrow> 's \<Rightarrow> heap
     \<Rightarrow> (((pyexc + addr tally) \<times> 's) \<times> heap) option" where
  "verify_split_ref program pairs s h = verify_loop_ref program pairs (0, 0, None, []) s h"

text \<open>The objects that can be reached from an address by following items.\<close>

inductive_set reach :: "heap \<Rightarrow> addr \<Rightarrow> addr set" for h :: heap and a :: addr where
  self: "a \<in> reach h a"
| item: "b \<in> reach h a \<Longrightarrow> lookup h b = Some (Grid rs) \<Longrightarrow> r \<in> set rs \<Longrightarrow> r \<in> reach h a"

text \<open>
  The solver has no name for the objects that were there before the verification, those
  below \<open>n\<close>: it changes one of them only if it can reach it from its argument. What was
  made later, by the verifier for it or by itself, it may change as it likes. The store
  only grows.
\<close>

definition confined :: "nat \<Rightarrow> 's hprogram \<Rightarrow> bool" where
  "confined n program =
     (\<forall>s h a r s' h'. program s h a = ((r, s'), h') \<longrightarrow>
        length h \<le> length h' \<and> (\<forall>b. b < n \<and> b < length h \<and> b \<notin> reach h a \<longrightarrow> h' ! b = h ! b))"

text \<open>
  A solver wrapped so that its state also logs, in order, the address it was called with
  and the grid it found there.
\<close>

definition logging_ref :: "'s hprogram \<Rightarrow> ((addr \<times> grid option) list \<times> 's) hprogram" where
  "logging_ref program =
     (\<lambda>(seen, s) h a. case program s h a of
                        ((r, s'), h') \<Rightarrow> ((r, (seen @ [(a, read_grid h a)], s')), h'))"

text \<open>\<^verbatim>\<open>def p(g): g[0][0] = 9; return g\<close>\<close>

definition solver_in_place :: "unit hprogram" where
  "solver_in_place s h g =
     (case lookup h g of
        Some (Grid (r # rs)) \<Rightarrow>
          (case lookup h r of
             Some (Row (x # xs)) \<Rightarrow>
               (let h' = h[r := Row (9 # xs)]
                in case read_grid h' g of
                     Some v \<Rightarrow> ((Inr (py_grid v), s), h')
                   | None \<Rightarrow> ((Inr PyNone, s), h'))
           | _ \<Rightarrow> ((Inl (PyExc True ''IndexError'' ''list index out of range''), s), h))
      | _ \<Rightarrow> ((Inl (PyExc True ''IndexError'' ''list index out of range''), s), h))"

text \<open>
  A repository of one pair, \<open>[[1, 2], [3, 4]]\<close> and \<open>[[9, 2], [3, 4]]\<close>, verified twice.
\<close>

definition heap_one_pair :: heap where
  "heap_one_pair =
     [Row [1, 2], Row [3, 4], Grid [0, 1], Row [9, 2], Row [3, 4], Grid [3, 4]]"

definition pair_at_2_5 :: example_ref where
  "pair_at_2_5 = \<lparr>input_ref = 2, output_ref = 5\<rparr>"

text \<open>
  A solver that only reads its argument: it does in the store what the solver on grids
  does with the grid it finds there.
\<close>

definition on_store :: "'s program \<Rightarrow> 's hprogram" where
  "on_store program s h a =
     (case read_grid h a of
        Some g \<Rightarrow> (program s g, h)
      | None \<Rightarrow> ((Inl (TypeError ''not a grid''), s), h))"

text \<open>The counts and the trace of a result, without the diagnostic.\<close>

fun counts :: "'g tally \<Rightarrow> nat \<times> nat \<times> string" where
  "counts (right, wrong, first_wrong_detail, err_tb) = (right, wrong, err_tb)"

definition example_at :: "heap \<Rightarrow> example_ref \<Rightarrow> example option" where
  "example_at h ex =
     (case (read_grid h (input_ref ex), read_grid h (output_ref ex)) of
        (Some gi, Some go) \<Rightarrow> Some \<lparr>ex_input = gi, ex_output = go\<rparr>
      | _ \<Rightarrow> None)"

section \<open>Properties of the scorer\<close>

text \<open>
  Claim C3. For every integer byte length: a passed solution scores
  \<open>max 1 (2500 - byte_length)\<close> (2400 at length 100, 1 at length 3000), a solution that
  did not pass scores 0.001 whatever its length, and every passed score is at least 1,
  hence strictly above every not-passed score.
\<close>

theorem score_for_length_spec:
  "score_for_length n True = real_of_int (max 1 (2500 - n))
   \<and> score_for_length 100 True = 2400
   \<and> score_for_length 3000 True = 1
   \<and> score_for_length n False = 0.001
   \<and> 1 \<le> score_for_length n True
   \<and> score_for_length m False < score_for_length n True"
  by (simp add: score_for_length_def Let_def max_def)

section \<open>Array comparison is Python equality\<close>


lemma py_eq_list_iff: "py_eq_list xs ys = list_all2 py_eq xs ys"
  by (induction xs ys rule: list_induct2') auto

lemma common_prefix_prefix: "s \<in> set ss \<Longrightarrow> prefix (common_prefix ss) s"
proof (induction ss rule: common_prefix.induct)
  case 1
  then show ?case by simp
next
  case (2 s')
  then show ?case by simp
next
  case (3 a t ss)
  show ?case
  proof (cases "s = a")
    case True
    then show ?thesis by (simp add: longest_common_prefix_prefix1)
  next
    case False
    with 3 have "prefix (common_prefix (t # ss)) s" by simp
    moreover have "prefix (longest_common_prefix a (common_prefix (t # ss))) (common_prefix (t # ss))"
      by (rule longest_common_prefix_prefix2)
    ultimately show ?thesis by (auto intro: prefix_order.trans)
  qed
qed

lemma prefix_take_eq: "prefix p s \<Longrightarrow> d \<le> length p \<Longrightarrow> take d s = take d p"
  by (auto simp: prefix_def)

lemma np_dims_children:
  assumes "Suc d \<le> length (np_dims v)"
  shows "\<exists>xs. v = JList xs
           \<and> (\<forall>x\<in>set xs. d \<le> length (np_dims x)
                  \<and> take d (np_dims x) = take d (tl (np_dims v)))"
proof (cases v)
  case (JList xs)
  have "d \<le> length (np_dims x) \<and> take d (np_dims x) = take d (tl (np_dims v))"
    if "x \<in> set xs" for x
  proof -
    from that have p: "prefix (common_prefix (map np_dims xs)) (np_dims x)"
      by (intro common_prefix_prefix) simp
    from assms JList have d: "d \<le> length (common_prefix (map np_dims xs))" by simp
    from p d have "d \<le> length (np_dims x)"
      using prefix_length_le by fastforce
    with prefix_take_eq [OF p d] JList show ?thesis by simp
  qed
  with JList show ?thesis by blast
qed (use assms in auto)

lemma length_np_flat:
  "d \<le> length (np_dims v) \<Longrightarrow> length (np_flat d v) = prod_list (take d (np_dims v))"
proof (induction d arbitrary: v)
  case 0
  then show ?case by simp
next
  case (Suc d)
  from np_dims_children [OF Suc.prems] obtain xs where v: "v = JList xs"
    and ch: "\<And>x. x \<in> set xs \<Longrightarrow> d \<le> length (np_dims x)
                 \<and> take d (np_dims x) = take d (tl (np_dims v))"
    by blast
  define k where "k = prod_list (take d (tl (np_dims v)))"
  have each: "length (np_flat d x) = k" if "x \<in> set xs" for x
    using Suc.IH [of x] ch [OF that] by (simp add: k_def)
  have "sum_list (map (\<lambda>x. length (np_flat d x)) xs) = sum_list (map (\<lambda>x. k) xs)"
    by (rule arg_cong [where f = sum_list], rule map_cong) (simp_all add: each)
  also have "\<dots> = length xs * k"
    by (simp add: sum_list_triv)
  finally have "length (np_flat (Suc d) v) = length xs * k"
    by (simp add: v length_concat comp_def)
  then show ?case by (simp add: v k_def)
qed

lemma list_all2_concat_split:
  "list_all2 (\<lambda>a b. length a = length b) xss yss
   \<Longrightarrow> list_all2 P (concat xss) (concat yss)
   \<Longrightarrow> list_all2 (list_all2 P) xss yss"
  by (induction xss yss rule: list_all2_induct) (auto simp: list_all2_append)

lemma np_equal_imp_py_eq:
  "d \<le> length (np_dims u) \<Longrightarrow> d \<le> length (np_dims w)
   \<Longrightarrow> take d (np_dims u) = take d (np_dims w)
   \<Longrightarrow> list_all2 py_eq (np_flat d u) (np_flat d w)
   \<Longrightarrow> py_eq u w"
proof (induction d arbitrary: u w)
  case 0
  then show ?case by simp
next
  case (Suc d)
  from np_dims_children [OF Suc.prems(1)] obtain xs where u: "u = JList xs"
    and chu: "\<And>x. x \<in> set xs \<Longrightarrow> d \<le> length (np_dims x)
                 \<and> take d (np_dims x) = take d (tl (np_dims u))"
    by blast
  from np_dims_children [OF Suc.prems(2)] obtain ys where w: "w = JList ys"
    and chw: "\<And>y. y \<in> set ys \<Longrightarrow> d \<le> length (np_dims y)
                 \<and> take d (np_dims y) = take d (tl (np_dims w))"
    by blast
  from Suc.prems(3) u w have len: "length xs = length ys"
    and tl: "take d (tl (np_dims u)) = take d (tl (np_dims w))"
    by simp_all
  have same: "d \<le> length (np_dims x) \<and> d \<le> length (np_dims y)
              \<and> take d (np_dims x) = take d (np_dims y)"
    if "x \<in> set xs" "y \<in> set ys" for x y
    using chu [OF that(1)] chw [OF that(2)] tl by simp
  have lens: "list_all2 (\<lambda>a b. length a = length b)
                 (map (np_flat d) xs) (map (np_flat d) ys)"
    unfolding list_all2_map1 list_all2_map2
  proof (rule list_all2_all_nthI [OF len])
    fix n assume "n < length xs"
    with len have "xs ! n \<in> set xs" "ys ! n \<in> set ys" by simp_all
    from same [OF this] show "length (np_flat d (xs ! n)) = length (np_flat d (ys ! n))"
      by (simp add: length_np_flat)
  qed
  from Suc.prems(4) have "list_all2 py_eq (concat (map (np_flat d) xs))
                            (concat (map (np_flat d) ys))"
    by (simp add: u w)
  from list_all2_concat_split [OF lens this]
  have parts: "list_all2 (\<lambda>x y. list_all2 py_eq (np_flat d x) (np_flat d y)) xs ys"
    by (simp add: list_all2_map1 list_all2_map2)
  have "list_all2 py_eq xs ys"
  proof (rule list_all2_all_nthI [OF len])
    fix n assume n: "n < length xs"
    with len have mem: "xs ! n \<in> set xs" "ys ! n \<in> set ys" by simp_all
    from parts n have "list_all2 py_eq (np_flat d (xs ! n)) (np_flat d (ys ! n))"
      by (simp add: list_all2_conv_all_nth)
    with Suc.IH [of "xs ! n" "ys ! n"] same [OF mem] show "py_eq (xs ! n) (ys ! n)"
      by simp
  qed
  then show ?case by (simp add: u w py_eq_list_iff)
qed

lemma py_eq_np_dims:
  "py_eq u w \<Longrightarrow> np_dims u = np_dims w"
  "py_eq_list xs ys \<Longrightarrow> map np_dims xs = map np_dims ys"
  by (induction u w and xs ys rule: py_eq_py_eq_list.induct)
     (auto dest: map_eq_imp_length_eq)

lemma py_eq_np_flat:
  "py_eq u w \<Longrightarrow> list_all2 py_eq (np_flat d u) (np_flat d w)"
proof (induction d arbitrary: u w)
  case 0
  then show ?case by simp
next
  case (Suc d)
  show ?case
  proof (cases u)
    case (JList xs)
    with Suc.prems obtain ys where w: "w = JList ys" and eq: "list_all2 py_eq xs ys"
      by (cases w) (auto simp: py_eq_list_iff)
    from eq have "list_all2 py_eq (concat (map (np_flat d) xs)) (concat (map (np_flat d) ys))"
      by (induction xs ys rule: list_all2_induct)
         (auto intro: list_all2_appendI Suc.IH)
    then show ?thesis by (simp add: JList w)
  next
    case (JInt a)
    with Suc.prems show ?thesis by (cases w) auto
  next
    case (JFloat q)
    with Suc.prems show ?thesis by (cases w) auto
  qed
qed

lemma np_compare_iff_py_eq:
  "(shape (np_array u) = shape (np_array w) \<and> all_equal (np_array u) (np_array w))
   = py_eq u w"
proof
  assume a: "shape (np_array u) = shape (np_array w) \<and> all_equal (np_array u) (np_array w)"
  then have dims: "np_dims u = np_dims w" by (simp add: np_array_def)
  have "length (np_flat (length (np_dims u)) u) = length (np_flat (length (np_dims w)) w)"
    by (simp add: length_np_flat dims)
  with a have "list_all2 py_eq (np_flat (length (np_dims u)) u) (np_flat (length (np_dims u)) w)"
    by (simp add: all_equal_def np_array_def list_all2_iff list_all_iff dims)
  with np_equal_imp_py_eq [of "length (np_dims u)" u w] dims show "py_eq u w" by simp
next
  assume e: "py_eq u w"
  then have dims: "np_dims u = np_dims w" by (rule py_eq_np_dims)
  from py_eq_np_flat [OF e, of "length (np_dims u)"]
  show "shape (np_array u) = shape (np_array w) \<and> all_equal (np_array u) (np_array w)"
    by (simp add: all_equal_def np_array_def list_all2_iff list_all_iff dims)
qed

section \<open>Faults and the failure boundary\<close>

lemma collect_Inl: "collect rs = Inl e \<Longrightarrow> Inl e \<in> set rs"
  by (induction rs rule: collect.induct) (auto split: sum.splits)

lemma json_dumps_ordinary: "json_dumps v = Inl e \<Longrightarrow> exc_ordinary e"
proof (induction v arbitrary: e)
  case (PyList xs)
  then obtain x where "x \<in> set xs" "json_dumps x = Inl e"
    by (auto split: sum.splits dest!: collect_Inl)
  with PyList.IH show ?case by blast
next
  case (PyDict kvs)
  then obtain kv where "kv \<in> set kvs" "json_dumps (snd kv) = Inl e"
    by (auto split: sum.splits dest!: collect_Inl)
  with PyDict.IH [of kv "snd kv" e] show ?case
    by (cases kv) auto
qed auto

lemma scan_once_ordinary:
  "scan_once t = Inl e \<Longrightarrow> exc_ordinary e"
  "JSONArray t vals = Inl e \<Longrightarrow> exc_ordinary e"
proof (induction t and t vals arbitrary: e and e rule: scan_once_JSONArray.induct)
  case 1
  then show ?case by auto
next
  case (2 c cs)
  then show ?case by (auto split: if_splits list.splits)
next
  case (3 s vals)
  note unfolded = "3.prems" [unfolded JSONArray.simps [of s vals]]
  show ?case
  proof (cases "scan_once s")
    case (Inl e')
    with unfolded have "e = e'" by simp
    with Inl "3.IH"(1) show ?thesis by simp
  next
    case (Inr p)
    obtain v r where p: "p = (v, r)" by (cases p)
    show ?thesis
    proof (cases "length r < length s")
      case False
      with unfolded Inr p show ?thesis by auto
    next
      case shorter: True
      show ?thesis
      proof (cases "skip_ws r")
        case Nil
        with unfolded Inr p shorter show ?thesis by auto
      next
        case (Cons d r')
        show ?thesis
        proof (cases "d = CHR '',''")
          case True
          with unfolded Inr p shorter Cons
          have rec: "JSONArray (skip_ws r') (vals @ [v]) = Inl e" by simp
          from True have "d \<noteq> CHR '']''" by simp
          from "3.IH"(2) [OF Inr p [symmetric] shorter Cons this True rec]
          show ?thesis .
        next
          case False
          with unfolded Inr p shorter Cons show ?thesis by (auto split: if_splits)
        qed
      qed
    qed
  qed
qed

lemma json_loads_ordinary: "json_loads t = Inl e \<Longrightarrow> exc_ordinary e"
  by (auto simp: json_loads_def split: sum.splits prod.splits if_splits dest: scan_once_ordinary)

lemma run_and_sanitize_fault:
  assumes "run_and_sanitize program s g = (Inl e, s')"
  shows "exc_ordinary e \<or> program s (deepcopy g) = (Inl e, s')"
  using assms
  by (auto simp: run_and_sanitize_def sanitize_def Let_def split: prod.splits sum.splits if_splits
           dest: json_dumps_ordinary json_loads_ordinary)

lemma try_pair_escape:
  assumes "try_pair program s ex = (Inl e, s')"
  shows "\<not> exc_ordinary e \<and> program s (deepcopy (ex_input ex)) = (Inl e, s')"
  using assms run_and_sanitize_fault [of program s "ex_input ex"]
  by (auto simp: try_pair_def compare_arrays_def except_clause_def Let_def split: prod.splits sum.splits if_splits)

lemma try_pair_returns:
  assumes "raises_only_exceptions program"
  shows "\<exists>v s'. try_pair program s ex = (Inr v, s')"
proof (cases "try_pair program s ex")
  case (Pair r s')
  show ?thesis
  proof (cases r)
    case (Inl e)
    with Pair try_pair_escape [of program s ex e s'] assms show ?thesis
      by (auto simp: raises_only_exceptions_def)
  next
    case (Inr v)
    with Pair show ?thesis by auto
  qed
qed

lemma try_pair_caught:
  assumes "program s (deepcopy (ex_input ex)) = (Inl e, s')" and "exc_ordinary e"
  shows "try_pair program s ex = (Inr (Errored e), s')"
  using assms by (simp add: try_pair_def compare_arrays_def except_clause_def run_and_sanitize_def sanitize_def)

lemma record_verdict_counts:
  "record_verdict inp outp v (r, w, d, tb) = (r', w', d', tb') \<Longrightarrow> r' + w' = Suc (r + w)"
  by (cases v) auto

lemma verify_loop_counts:
  "verify_loop program pairs (r, w, d, tb) s = (Inr (r', w', d', tb'), s')
   \<Longrightarrow> r' + w' = r + w + length pairs"
proof (induction pairs arbitrary: r w d tb s)
  case Nil
  then show ?case by simp
next
  case (Cons ex rest)
  from Cons.prems obtain v s1 where v: "try_pair program s ex = (Inr v, s1)"
    and rest: "verify_loop program rest (record_verdict (ex_input ex) (ex_output ex) v (r, w, d, tb)) s1
               = (Inr (r', w', d', tb'), s')"
    by (auto split: prod.splits sum.splits)
  obtain r1 w1 d1 tb1 where rv: "record_verdict (ex_input ex) (ex_output ex) v (r, w, d, tb) = (r1, w1, d1, tb1)"
    by (cases "record_verdict (ex_input ex) (ex_output ex) v (r, w, d, tb)") auto
  from Cons.IH [of r1 w1 d1 tb1 s1] rest rv have "r' + w' = r1 + w1 + length rest" by simp
  with record_verdict_counts [OF rv] show ?case by simp
qed

lemma verify_loop_returns:
  assumes "raises_only_exceptions program"
  shows "\<exists>t s'. verify_loop program pairs acc s = (Inr t, s')"
proof (induction pairs arbitrary: acc s)
  case Nil
  show ?case by (cases acc) simp
next
  case (Cons ex rest)
  from try_pair_returns [OF assms, of s ex] obtain v s1
    where "try_pair program s ex = (Inr v, s1)" by blast
  with Cons.IH [of "record_verdict (ex_input ex) (ex_output ex) v acc" s1] show ?case by simp
qed

lemma format_exc_nonempty: "format_exc e \<noteq> []"
  by (simp add: format_exc_def)

lemma verify_loop_all_raise:
  assumes "raises_unconditionally program"
  shows "\<exists>d' tb' s'. verify_loop program pairs (r, w, d, tb) s
            = (Inr (r, w + length pairs, d', tb'), s')
          \<and> (pairs \<noteq> [] \<or> tb \<noteq> [] \<longrightarrow> tb' \<noteq> [])"
proof (induction pairs arbitrary: w d tb s)
  case Nil
  show ?case by simp
next
  case (Cons ex rest)
  from assms obtain e s1 where call: "program s (deepcopy (ex_input ex)) = (Inl e, s1)"
    and ord: "exc_ordinary e"
    unfolding raises_unconditionally_def by blast
  have step: "try_pair program s ex = (Inr (Errored e), s1)"
    using call ord by (rule try_pair_caught)
  define d1 where "d1 = (if d = None
      then Some \<lparr>d_input = ex_input ex, d_expected = ex_output ex, d_actual = None\<rparr> else d)"
  define tb1 where "tb1 = (if tb = [] then format_exc e else tb)"
  have tb1: "tb1 \<noteq> []" by (simp add: tb1_def format_exc_nonempty)
  from Cons.IH [of "w + 1" d1 tb1 s1] obtain d' tb' s'
    where "verify_loop program rest (r, w + 1, d1, tb1) s1
             = (Inr (r, w + 1 + length rest, d', tb'), s')" and "tb' \<noteq> []"
    using tb1 by blast
  with step show ?case by (simp add: d1_def tb1_def)
qed

lemma logging_try_pair:
  "try_pair (logging program) (seen, s) ex =
     (case try_pair program s ex of (r, s') \<Rightarrow> (r, (seen @ [deepcopy (ex_input ex)], s')))"
  by (simp add: try_pair_def compare_arrays_def except_clause_def run_and_sanitize_def sanitize_def logging_def Let_def
           split: prod.splits sum.splits)

lemma logging_verify_loop:
  "verify_loop program pairs acc s = (Inr t, s')
   \<Longrightarrow> verify_loop (logging program) pairs acc (seen, s)
       = (Inr t, (seen @ map (\<lambda>ex. deepcopy (ex_input ex)) pairs, s'))"
proof (induction pairs arbitrary: acc s seen)
  case Nil
  then show ?case by simp
next
  case (Cons ex rest)
  from Cons.prems obtain v s1 where v: "try_pair program s ex = (Inr v, s1)"
    and rest: "verify_loop program rest (record_verdict (ex_input ex) (ex_output ex) v acc) s1 = (Inr t, s')"
    by (auto split: prod.splits sum.splits)
  from Cons.IH [OF rest, of "seen @ [deepcopy (ex_input ex)]"] v show ?case
    by (simp add: logging_try_pair)
qed

lemma deepcopy_id: "deepcopy g = g"
  by (simp add: deepcopy_def)

section \<open>The failure boundary of the verifier\<close>

text \<open>
  Claim C4, as the code has it. A fault that is an \<open>Exception\<close>, raised by the solver on
  a pair, is caught inside the verifier: the pair counts as one fail, the first such
  fault leaves its trace, and the loop goes on with the next pair. Hence a solver that
  raises such a fault on every call, verified on a non-empty pair sequence, yields
  \<open>fail_count = len(pairs)\<close>, \<open>pass_count = 0\<close> and a non-empty trace. (A fault outside
  \<open>Exception\<close> is not caught by \<^verbatim>\<open>except Exception\<close>: see the counterexample.)
\<close>

theorem exception_fails_one_pair_and_loop_continues:
  "(program s (deepcopy (ex_input ex)) = (Inl e, s1) \<and> exc_ordinary e \<longrightarrow>
      verify_loop program (ex # rest) (right, wrong, d, tb) s =
        verify_loop program rest
          (right, wrong + 1,
           (if d = None
            then Some \<lparr>d_input = ex_input ex, d_expected = ex_output ex, d_actual = None\<rparr>
            else d),
           (if tb = [] then format_exc e else tb)) s1)
   \<and> (raises_unconditionally program \<and> pairs \<noteq> [] \<longrightarrow>
        (\<exists>d' tb' s'. verify_split program pairs s = (Inr (0, length pairs, d', tb'), s')
                      \<and> tb' \<noteq> []))"
proof (intro conjI impI)
  assume a: "program s (deepcopy (ex_input ex)) = (Inl e, s1) \<and> exc_ordinary e"
  then have "try_pair program s ex = (Inr (Errored e), s1)"
    by (simp add: try_pair_caught)
  then show "verify_loop program (ex # rest) (right, wrong, d, tb) s =
        verify_loop program rest
          (right, wrong + 1,
           (if d = None
            then Some \<lparr>d_input = ex_input ex, d_expected = ex_output ex, d_actual = None\<rparr>
            else d),
           (if tb = [] then format_exc e else tb)) s1"
    by simp
next
  assume a: "raises_unconditionally program \<and> pairs \<noteq> []"
  with verify_loop_all_raise [of program pairs 0 0 None "[]" s]
  show "\<exists>d' tb' s'. verify_split program pairs s = (Inr (0, length pairs, d', tb'), s')
                      \<and> tb' \<noteq> []"
    by (simp add: verify_split_def)
qed

theorem exception_fails_one_pair_and_loop_continues_witness:
  "(solver_crash () (deepcopy (ex_input example_zero))
      = (Inl (PyExc True ''ZeroDivisionError'' ''integer division or modulo by zero''), ())
    \<and> exc_ordinary (PyExc True ''ZeroDivisionError'' ''integer division or modulo by zero''))
   \<and> verify_loop solver_crash [example_zero] (0, 0, None, []) () =
       (Inr (0, 1,
             Some \<lparr>d_input = [[0]], d_expected = [[0]], d_actual = None\<rparr>,
             format_exc (PyExc True ''ZeroDivisionError''
                           ''integer division or modulo by zero'')), ())
   \<and> (raises_unconditionally solver_crash \<and> [example_zero, example_zero] \<noteq> [])
   \<and> (\<exists>d' tb' s'. verify_split solver_crash [example_zero, example_zero] ()
                      = (Inr (0, length [example_zero, example_zero], d', tb'), s')
                    \<and> tb' \<noteq> [])"
proof -
  have call: "solver_crash () (deepcopy (ex_input example_zero))
      = (Inl (PyExc True ''ZeroDivisionError'' ''integer division or modulo by zero''), ())
    \<and> exc_ordinary (PyExc True ''ZeroDivisionError'' ''integer division or modulo by zero'')"
    by (simp add: solver_crash_def)
  have always: "raises_unconditionally solver_crash \<and> [example_zero, example_zero] \<noteq> []"
    by (simp add: raises_unconditionally_def solver_crash_def)
  note inst = exception_fails_one_pair_and_loop_continues
    [of solver_crash "()" example_zero
        "PyExc True ''ZeroDivisionError'' ''integer division or modulo by zero''" "()"
        "[]" 0 0 None "[]" "[example_zero, example_zero]"]
  from inst call have one: "verify_loop solver_crash [example_zero] (0, 0, None, []) () =
       (Inr (0, 1,
             Some \<lparr>d_input = [[0]], d_expected = [[0]], d_actual = None\<rparr>,
             format_exc (PyExc True ''ZeroDivisionError''
                           ''integer division or modulo by zero'')), ())"
    by (simp add: example_zero_def)
  from inst always have
    "\<exists>d' tb' s'. verify_split solver_crash [example_zero, example_zero] ()
                      = (Inr (0, length [example_zero, example_zero], d', tb'), s')
                    \<and> tb' \<noteq> []"
    by blast
  with call always one show ?thesis by blast
qed

text \<open>
  The claim as stated fails: the solver \<^verbatim>\<open>def p(g): raise SystemExit\<close> raises a fault
  that \<^verbatim>\<open>except Exception\<close> does not catch, and it leaves \<open>_verify_split\<close>.
\<close>

theorem system_exit_escapes_verifier:
  "fst (verify_split solver_exit [example_zero] ()) = Inl SystemExit"
  by (simp add: verify_split_def try_pair_def compare_arrays_def except_clause_def run_and_sanitize_def sanitize_def solver_exit_def)

section \<open>One verdict for each pair\<close>

text \<open>
  Claim C9, as the code has it. Verifying an empty pair sequence returns exactly
  \<open>(0, 0, None, "")\<close>. For a solver none of whose calls raises a fault outside
  \<open>Exception\<close>, verification returns, \<open>pass_count + fail_count = len(pairs)\<close>, and the
  solver was called exactly once for each pair, in order, on that pair's input (the log
  of the wrapped solver).
\<close>

theorem verify_split_one_verdict_per_pair:
  "verify_split program [] s = (Inr (0, 0, None, []), s)
   \<and> (raises_only_exceptions program \<longrightarrow>
        (\<exists>right wrong d tb s'.
            verify_split program pairs s = (Inr (right, wrong, d, tb), s')
          \<and> right + wrong = length pairs
          \<and> verify_split (logging program) pairs ([], s)
              = (Inr (right, wrong, d, tb), (map ex_input pairs, s'))))"
proof (intro conjI impI)
  show "verify_split program [] s = (Inr (0, 0, None, []), s)"
    by (simp add: verify_split_def)
next
  assume "raises_only_exceptions program"
  from verify_loop_returns [OF this, of pairs "(0, 0, None, [])" s]
  obtain t s' where run: "verify_loop program pairs (0, 0, None, []) s = (Inr t, s')"
    by blast
  obtain right wrong d tb where t: "t = (right, wrong, d, tb)"
    by (cases t) auto
  from verify_loop_counts [of program pairs 0 0 None "[]" s right wrong d tb s'] run t
  have sum: "right + wrong = length pairs" by simp
  from logging_verify_loop [OF run, of "[]"]
  have "verify_loop (logging program) pairs (0, 0, None, []) ([], s)
          = (Inr t, (map ex_input pairs, s'))"
    by (simp add: deepcopy_id)
  with run t sum
  show "\<exists>right wrong d tb s'.
            verify_split program pairs s = (Inr (right, wrong, d, tb), s')
          \<and> right + wrong = length pairs
          \<and> verify_split (logging program) pairs ([], s)
              = (Inr (right, wrong, d, tb), (map ex_input pairs, s'))"
    by (simp add: verify_split_def)
qed

theorem verify_split_one_verdict_per_pair_witness:
  "raises_only_exceptions solver_crash
   \<and> (\<exists>right wrong d tb s'.
            verify_split solver_crash [example_zero, example_zero] ()
              = (Inr (right, wrong, d, tb), s')
          \<and> right + wrong = length [example_zero, example_zero]
          \<and> verify_split (logging solver_crash) [example_zero, example_zero] ([], ())
              = (Inr (right, wrong, d, tb), (map ex_input [example_zero, example_zero], s')))"
proof -
  have h: "raises_only_exceptions solver_crash"
    by (simp add: raises_only_exceptions_def solver_crash_def)
  with verify_split_one_verdict_per_pair [of solver_crash "()" "[example_zero, example_zero]"]
  show ?thesis by blast
qed

text \<open>
  The claim as stated fails for a solver that raises \<open>SystemExit\<close>: the fault leaves the
  verifier, no pair gets a verdict and no counts are returned.
\<close>

theorem system_exit_leaves_no_counts:
  "verify_split solver_exit [example_zero, example_zero] () = (Inl SystemExit, ())"
  by (simp add: verify_split_def try_pair_def compare_arrays_def except_clause_def run_and_sanitize_def sanitize_def solver_exit_def)

section \<open>The comparison step\<close>

lemma concat_chunk:
  "\<forall>x\<in>set xss. length x = k \<Longrightarrow> i < length xss
   \<Longrightarrow> take k (drop (i * k) (concat xss)) = xss ! i"
proof (induction xss arbitrary: i)
  case Nil
  then show ?case by simp
next
  case (Cons a rest)
  show ?case
  proof (cases i)
    case 0
    with Cons.prems show ?thesis by simp
  next
    case (Suc j)
    with Cons.prems have "take k (drop (j * k) (concat rest)) = rest ! j"
      by (intro Cons.IH) simp_all
    with Suc Cons.prems show ?thesis by simp
  qed
qed

lemma nest_np_flat:
  "d \<le> length (np_dims v) \<Longrightarrow> nest (take d (np_dims v)) (np_flat d v) = v"
proof (induction d arbitrary: v)
  case 0
  then show ?case by simp
next
  case (Suc d)
  from np_dims_children [OF Suc.prems] obtain xs where v: "v = JList xs"
    and ch: "\<And>x. x \<in> set xs \<Longrightarrow> d \<le> length (np_dims x)
                 \<and> take d (np_dims x) = take d (tl (np_dims v))"
    by blast
  define sh where "sh = take d (tl (np_dims v))"
  define k where "k = prod_list sh"
  have len: "length (np_flat d x) = k" if "x \<in> set xs" for x
    using ch [OF that] by (simp add: length_np_flat k_def sh_def)
  have inv: "nest sh (np_flat d x) = x" if "x \<in> set xs" for x
    using Suc.IH [of x] ch [OF that] by (simp add: sh_def)
  have "nest sh (take k (drop (i * k) (concat (map (np_flat d) xs)))) = xs ! i"
    if "i < length xs" for i
  proof -
    have "take k (drop (i * k) (concat (map (np_flat d) xs))) = map (np_flat d) xs ! i"
      by (rule concat_chunk) (use that len in auto)
    with that inv show ?thesis by simp
  qed
  then have "map (\<lambda>i. nest sh (take k (drop (i * k) (concat (map (np_flat d) xs)))))
               [0..<length xs] = map (\<lambda>i. xs ! i) [0..<length xs]"
    by simp
  also have "\<dots> = xs" by (rule map_nth)
  finally have "nest (length xs # sh) (np_flat (Suc d) v) = v"
    by (simp add: v k_def)
  moreover have "take (Suc d) (np_dims v) = length xs # sh"
    by (simp add: v sh_def)
  ultimately show ?case by simp
qed

lemma tolist_np_array: "tolist (np_array v) = v"
  using nest_np_flat [of "length (np_dims v)" v] by (simp add: tolist_def np_array_def)

lemma py_eq_row:
  "py_eq row (JList (map JInt want)) = row_identical row want"
proof (cases row)
  case (JList cells)
  have "list_all2 py_eq cells (map JInt want)
        = (length cells = length want \<and> list_all (\<lambda>(c, x). cell_equal c x) (zip cells want))"
  proof (induction cells want rule: list_induct2')
    case (4 c cs x xs)
    have "py_eq c (JInt x) = cell_equal c x" by (cases c) auto
    with 4 show ?case by auto
  qed auto
  with JList show ?thesis by (simp add: py_eq_list_iff)
qed auto

lemma py_eq_grid:
  "py_eq parsed (grid_value expected) = grids_identical parsed expected"
proof (cases parsed)
  case (JList rows)
  have "list_all2 py_eq rows (map (\<lambda>row. JList (map JInt row)) expected)
        = (length rows = length expected
           \<and> list_all (\<lambda>(row, want). row_identical row want) (zip rows expected))"
    by (induction rows expected rule: list_induct2') (auto simp: py_eq_row)
  with JList show ?thesis by (simp add: py_eq_list_iff grid_value_def)
qed (auto simp: grid_value_def)

text \<open>
  Claim C1. When serialization, the character filter and re-parsing have succeeded, so
  that \<open>_run_and_sanitize\<close> returns the array of the parsed value, the pair is Correct
  if and only if the parsed value and the expected grid have the same row count, the same
  column count in every row and numerically equal cells; otherwise it is Incorrect (with
  the parsed value as the diagnostic), never an error and never an escaping fault.
\<close>

theorem comparison_verdict:
  assumes "run_and_sanitize program s (ex_input ex) = (Inr (np_array parsed), s')"
  shows "try_pair program s ex =
           (if grids_identical parsed (ex_output ex) then (Inr Correct, s')
            else (Inr (Incorrect parsed), s'))"
  using assms np_compare_iff_py_eq [of parsed "grid_value (ex_output ex)"]
  by (simp add: try_pair_def compare_arrays_def except_clause_def py_eq_grid tolist_np_array)

text \<open>The solver that answers \<open>[[1, 2]]\<close> where \<open>[[1], [2]]\<close> is expected.\<close>

theorem comparison_verdict_witness:
  "run_and_sanitize (solver_const (PyList [PyList [PyInt 1, PyInt 2]])) ()
       (ex_input \<lparr>ex_input = [[0]], ex_output = [[1], [2]]\<rparr>)
     = (Inr (np_array (JList [JList [JInt 1, JInt 2]])), ())
   \<and> try_pair (solver_const (PyList [PyList [PyInt 1, PyInt 2]])) ()
        \<lparr>ex_input = [[0]], ex_output = [[1], [2]]\<rparr>
     = (Inr (Incorrect (JList [JList [JInt 1, JInt 2]])), ())"
proof -
  have h: "run_and_sanitize (solver_const (PyList [PyList [PyInt 1, PyInt 2]])) ()
       (ex_input \<lparr>ex_input = [[0]], ex_output = [[1], [2]]\<rparr>)
     = (Inr (np_array (JList [JList [JInt 1, JInt 2]])), ())"
    by code_simp
  from comparison_verdict [OF h] h show ?thesis by simp
qed

section \<open>The character filter\<close>

text \<open>
  Claim C2. If the solver returned a value whose serialization, after the booleans are
  normalized, contains a character that is not an ASCII digit, a comma, a square bracket,
  whitespace or a period, then the pair is classified as an execution error (the
  \<open>ValueError\<close> of \<open>_run_and_sanitize\<close>, caught by the verifier), not as Incorrect; no
  fault leaves the verifier; and the pair counts toward the fail count.
\<close>

theorem unsafe_text_is_execution_error:
  assumes "program s (deepcopy (ex_input ex)) = (Inr result, s')"
    and "json_dumps result = Inr raw"
    and "dumped = str_replace ''false'' ''0'' (str_replace ''true'' ''1'' raw)"
    and "c \<in> set dumped"
    and "\<not> is_digit c" and "c \<noteq> CHR '',''" and "c \<noteq> CHR ''[''" and "c \<noteq> CHR '']''"
    and "\<not> is_space c" and "c \<noteq> CHR ''.''"
  shows "try_pair program s ex =
           (Inr (Errored (ValueError (''Invalid output from user code: '' @ take 200 dumped))),
            s')
         \<and> verify_loop program (ex # rest) (right, wrong, d, tb) s =
             verify_loop program rest
               (right, wrong + 1,
                (if d = None
                 then Some \<lparr>d_input = ex_input ex, d_expected = ex_output ex, d_actual = None\<rparr>
                 else d),
                (if tb = []
                 then format_exc
                        (ValueError (''Invalid output from user code: '' @ take 200 dumped))
                 else tb)) s'"
proof -
  from assms(4-10) have "UNSAFE_CHARS_RE_search dumped"
    by (auto simp: UNSAFE_CHARS_RE_search_def unsafe_char_def list_ex_iff)
  with assms(1-3) have
    "run_and_sanitize program s (ex_input ex) =
       (Inl (ValueError (''Invalid output from user code: '' @ take 200 dumped)), s')"
    by (simp add: run_and_sanitize_def sanitize_def)
  then have "try_pair program s ex =
           (Inr (Errored (ValueError (''Invalid output from user code: '' @ take 200 dumped))),
            s')"
    by (simp add: try_pair_def compare_arrays_def except_clause_def)
  then show ?thesis by simp
qed

text \<open>The solver that answers \<open>[["a"]]\<close>: its text has a quote and a letter.\<close>

theorem unsafe_text_is_execution_error_witness:
  "try_pair (solver_const (PyList [PyList [PyStr ''a'']])) () example_zero =
     (Inr (Errored (ValueError
        (''Invalid output from user code: [['' @ [CHR 0x22] @ ''a'' @ [CHR 0x22] @ '']]''))), ())
   \<and> verify_loop (solver_const (PyList [PyList [PyStr ''a'']])) [example_zero]
        (0, 0, None, []) () =
       (Inr (0, 1,
             Some \<lparr>d_input = [[0]], d_expected = [[0]], d_actual = None\<rparr>,
             format_exc (ValueError
               (''Invalid output from user code: [['' @ [CHR 0x22] @ ''a'' @ [CHR 0x22]
                  @ '']]''))), ())"
proof -
  let ?text = "''[['' @ [CHR 0x22] @ ''a'' @ [CHR 0x22] @ '']]''"
  have call: "solver_const (PyList [PyList [PyStr ''a'']]) () (deepcopy (ex_input example_zero))
                = (Inr (PyList [PyList [PyStr ''a'']]), ())"
    by (simp add: solver_const_def)
  have dumps: "json_dumps (PyList [PyList [PyStr ''a'']]) = Inr ?text"
    by (simp add: encode_basestring_ascii_def escape_char_def)
  have same: "?text = str_replace ''false'' ''0'' (str_replace ''true'' ''1'' ?text)"
    by simp
  have mem: "CHR ''a'' \<in> set ?text" by simp
  have cls: "\<not> is_digit CHR ''a''" "\<not> is_space CHR ''a''"
    by (simp_all add: is_digit_def is_space_def)
  note inst = unsafe_text_is_execution_error
    [where program = "solver_const (PyList [PyList [PyStr ''a'']])" and s = "()"
       and ex = example_zero and result = "PyList [PyList [PyStr ''a'']]" and s' = "()"
       and raw = ?text and dumped = ?text and c = "CHR ''a''"
       and rest = "[]" and right = 0 and wrong = 0 and d = None and tb = "[]"]
  from inst [OF call dumps same mem cls(1) _ _ _ cls(2)]
  show ?thesis by (simp add: example_zero_def)
qed

section \<open>Decimal text reads back\<close>

lemma digit_char_zero: "digit_char 0 = CHR ''0''"
  by code_simp

lemma is_digit_digit_char: "is_digit (digit_char d)"
proof -
  have "d mod 10 < 10" by simp
  then have "(48 + d mod 10) mod 256 = 48 + d mod 10" by simp
  then show ?thesis by (simp add: is_digit_def digit_char_def)
qed

lemma digit_val_digit_char: "digit_val (digit_char d) = d mod 10"
proof -
  have "d mod 10 < 10" by simp
  then have "(48 + d mod 10) mod 256 = 48 + d mod 10" by simp
  then show ?thesis by (simp add: digit_val_def digit_char_def)
qed

lemma digit_char_eq_zero: "digit_char d = CHR ''0'' \<Longrightarrow> d mod 10 = 0"
  using digit_val_digit_char [of d] by (simp add: digit_val_def)

lemma dec_nonempty: "dec n \<noteq> []"
  by (subst dec.simps) simp

lemma dec_digits: "c \<in> set (dec n) \<Longrightarrow> is_digit c"
proof (induction n rule: dec.induct)
  case (1 n)
  show ?case
  proof (cases "n < 10")
    case True
    with "1.prems" show ?thesis
      by (subst (asm) dec.simps) (simp add: is_digit_digit_char)
  next
    case False
    with "1.prems" have "c \<in> set (dec (n div 10)) \<or> c = digit_char (n mod 10)"
      by (subst (asm) dec.simps) auto
    with False "1.IH" show ?thesis by (auto simp: is_digit_digit_char)
  qed
qed

lemma nat_of_digits_snoc: "nat_of_digits (ds @ [c]) = 10 * nat_of_digits ds + digit_val c"
  by (simp add: nat_of_digits_def)

lemma nat_of_digits_dec: "nat_of_digits (dec n) = n"
proof (induction n rule: dec.induct)
  case (1 n)
  show ?case
  proof (cases "n < 10")
    case True
    then show ?thesis
      by (subst dec.simps) (simp add: nat_of_digits_def digit_val_digit_char)
  next
    case False
    with "1.IH" have "nat_of_digits (dec (n div 10)) = n div 10" by simp
    with False show ?thesis
      by (subst dec.simps) (simp add: nat_of_digits_snoc digit_val_digit_char)
  qed
qed

lemma hd_dec_zero: "hd (dec n) = CHR ''0'' \<Longrightarrow> n = 0"
proof (induction n rule: dec.induct)
  case (1 n)
  show ?case
  proof (cases "n < 10")
    case True
    with "1.prems" have "digit_char n = CHR ''0''"
      by (subst (asm) dec.simps) simp
    from digit_char_eq_zero [OF this] True show ?thesis by simp
  next
    case False
    with "1.prems" have "hd (dec (n div 10)) = CHR ''0''"
      by (subst (asm) dec.simps) (simp add: dec_nonempty)
    with False "1.IH" have "n div 10 = 0" by simp
    with False show ?thesis by simp
  qed
qed

lemma dec_zero: "dec 0 = ''0''"
  by (subst dec.simps) (simp add: digit_char_zero)

lemma takeWhile_digits_dec:
  "takeWhile is_digit rest = [] \<Longrightarrow> takeWhile is_digit (dec n @ rest) = dec n"
  by (simp add: takeWhile_append2 dec_digits)

lemma delimited_no_digit: "delimited rest \<Longrightarrow> takeWhile is_digit rest = []"
  by (cases rest) (auto simp: delimited_def is_digit_def)

lemma integer_part_dec:
  assumes "takeWhile is_digit rest = []"
  shows "(if take 1 (dec n @ rest) = ''0'' then ''0'' else takeWhile is_digit (dec n @ rest))
         = dec n"
proof (cases "n = 0")
  case True
  then show ?thesis by (simp add: dec_zero)
next
  case False
  obtain c cs where d: "dec n = c # cs"
    using dec_nonempty [of n] by (cases "dec n") auto
  with hd_dec_zero [of n] False have "c \<noteq> CHR ''0''" by auto
  with d assms show ?thesis
    using takeWhile_digits_dec [OF assms, of n] by simp
qed

lemma scan_number_int:
  assumes "delimited rest"
  shows "scan_number (dec n @ rest) = (JInt (int n), rest)"
proof -
  have ip: "(if take 1 (dec n @ rest) = ''0'' then ''0''
             else takeWhile is_digit (dec n @ rest)) = dec n"
    by (rule integer_part_dec) (rule delimited_no_digit [OF assms])
  from assms show ?thesis
    unfolding scan_number_def ip
    by (cases rest) (auto simp: Let_def delimited_def nat_of_digits_dec)
qed

lemma scan_number_float:
  assumes "delimited rest"
  shows "scan_number (dec n @ ''.0'' @ rest) = (JFloat (of_nat n), rest)"
proof -
  have nodigit: "takeWhile is_digit (''.0'' @ rest) = []"
    by (simp add: is_digit_def)
  have ip: "(if take 1 (dec n @ ''.0'' @ rest) = ''0'' then ''0''
             else takeWhile is_digit (dec n @ ''.0'' @ rest)) = dec n"
    by (rule integer_part_dec) (rule nodigit)
  have fr: "takeWhile is_digit (''0'' @ rest) = ''0''"
    using delimited_no_digit [OF assms] by (simp add: is_digit_def)
  have z: "nat_of_digits ''0'' = 0"
    by (simp add: nat_of_digits_def digit_val_def)
  show ?thesis
    unfolding scan_number_def ip
    using fr by (simp add: Let_def nat_of_digits_dec z)
qed

lemma scan_once_digits:
  assumes "t \<noteq> []" and "is_digit (hd t)"
  shows "scan_once (t @ rest) = Inr (scan_number (t @ rest))"
proof -
  from assms obtain c cs where t: "t = c # cs" and c: "is_digit c"
    by (cases t) auto
  from c have "c \<noteq> CHR ''[''" by (auto simp: is_digit_def)
  with t c show ?thesis by simp
qed

lemma is_digit_not_ws: "is_digit c \<Longrightarrow> \<not> is_json_ws c"
  by (auto simp: is_digit_def is_json_ws_def)

lemma hd_dec_digit: "is_digit (hd (dec n))"
  using dec_nonempty [of n] dec_digits [of "hd (dec n)" n] by simp

lemma parses_as_cell:
  assumes "0 \<le> snd c"
  shows "parses_as (cell_text c) (cell_parsed c)"
proof (cases "fst c")
  case True
  have "scan_once ((dec (nat (snd c)) @ ''.0'') @ rest)
          = Inr (JFloat (of_int (snd c)), rest)" if "delimited rest" for rest
  proof -
    have "scan_once ((dec (nat (snd c)) @ ''.0'') @ rest)
            = Inr (scan_number ((dec (nat (snd c)) @ ''.0'') @ rest))"
      by (rule scan_once_digits) (simp_all add: dec_nonempty hd_dec_digit hd_append)
    with scan_number_float [OF that, of "nat (snd c)"] assms show ?thesis by simp
  qed
  with True show ?thesis
    by (simp add: parses_as_def cell_text_def cell_parsed_def dec_nonempty hd_append
                  is_digit_not_ws hd_dec_digit)
next
  case False
  have "scan_once (dec (nat (snd c)) @ rest) = Inr (JInt (snd c), rest)"
    if "delimited rest" for rest
  proof -
    have "scan_once (dec (nat (snd c)) @ rest) = Inr (scan_number (dec (nat (snd c)) @ rest))"
      by (rule scan_once_digits) (simp_all add: dec_nonempty hd_dec_digit)
    with scan_number_int [OF that, of "nat (snd c)"] assms show ?thesis by simp
  qed
  with False show ?thesis
    by (simp add: parses_as_def cell_text_def cell_parsed_def dec_nonempty
                  is_digit_not_ws hd_dec_digit)
qed

section \<open>Arrays of numbers read back\<close>

lemma join_str_Cons:
  "join_str sep (u # ts) = u @ (if ts = [] then [] else sep @ join_str sep ts)"
  by (cases ts) simp_all

lemma skip_ws_no_ws: "t \<noteq> [] \<Longrightarrow> \<not> is_json_ws (hd t) \<Longrightarrow> skip_ws (t @ rest) = t @ rest"
  by (cases t) (simp_all add: skip_ws_def)

lemma skip_ws_space: "skip_ws (CHR '' '' # t) = skip_ws t"
  by (simp add: skip_ws_def is_json_ws_def)

lemma skip_ws_delimiter:
  "skip_ws (CHR '','' # t) = CHR '','' # t" "skip_ws (CHR '']'' # t) = CHR '']'' # t"
  by (simp_all add: skip_ws_def is_json_ws_def)

lemma delimited_simps:
  "delimited []" "delimited (CHR '','' # t)" "delimited (CHR '']'' # t)"
  by (simp_all add: delimited_def)

lemma parses_as_scan:
  "parses_as t v \<Longrightarrow> delimited rest \<Longrightarrow> scan_once (t @ rest) = Inr (v, rest)"
  by (simp add: parses_as_def)

lemma parses_as_start: "parses_as t v \<Longrightarrow> t \<noteq> [] \<and> \<not> is_json_ws (hd t)"
  by (simp add: parses_as_def)

lemma parses_as_not_closing:
  assumes "parses_as t v"
  shows "hd t \<noteq> CHR '']''"
proof
  assume closing: "hd t = CHR '']''"
  from assms obtain c cs where t: "t = c # cs" by (cases t) (auto simp: parses_as_def)
  from parses_as_scan [OF assms delimited_simps(1)] have "scan_once t = Inr (v, [])" by simp
  with t closing show False by (simp add: is_digit_def)
qed

lemma JSONArray_close:
  "scan_once s = Inr (v, r) \<Longrightarrow> length r < length s \<Longrightarrow> skip_ws r = CHR '']'' # r'
   \<Longrightarrow> JSONArray s acc = Inr (JList (acc @ [v]), r')"
  by (subst JSONArray.simps) simp

lemma JSONArray_comma:
  "scan_once s = Inr (v, r) \<Longrightarrow> length r < length s \<Longrightarrow> skip_ws r = CHR '','' # r'
   \<Longrightarrow> JSONArray s acc = JSONArray (skip_ws r') (acc @ [v])"
  by (subst JSONArray.simps) simp

lemma JSONArray_items:
  "list_all2 parses_as ts vs \<Longrightarrow> ts \<noteq> []
   \<Longrightarrow> JSONArray (join_str '', '' ts @ '']'' @ rest) acc = Inr (JList (acc @ vs), rest)"
proof (induction ts vs arbitrary: acc rule: list_all2_induct)
  case Nil
  then show ?case by simp
next
  case (Cons t ts v vs)
  from parses_as_start [OF Cons.hyps(1)] have t: "t \<noteq> []" by simp
  show ?case
  proof (cases "ts = []")
    case True
    with Cons.hyps(2) have vs: "vs = []" by simp
    have scan: "scan_once (t @ '']'' @ rest) = Inr (v, '']'' @ rest)"
      by (rule parses_as_scan [OF Cons.hyps(1)]) (simp add: delimited_simps)
    have "JSONArray (t @ '']'' @ rest) acc = Inr (JList (acc @ [v]), rest)"
      by (rule JSONArray_close [OF scan]) (use t in \<open>simp_all add: skip_ws_delimiter\<close>)
    then show ?thesis by (simp add: True vs)
  next
    case False
    define tail where "tail = join_str '', '' ts @ '']'' @ rest"
    have scan: "scan_once (t @ '', '' @ tail) = Inr (v, '', '' @ tail)"
      by (rule parses_as_scan [OF Cons.hyps(1)]) (simp add: delimited_simps)
    from False Cons.hyps(2) obtain u us where ts: "ts = u # us"
      by (cases ts) auto
    with Cons.hyps(2) obtain w where "parses_as u w"
      by (auto simp: list_all2_Cons1)
    from parses_as_start [OF this]
    have "skip_ws (u @ (if us = [] then [] else '', '' @ join_str '', '' us) @ '']'' @ rest)
          = u @ (if us = [] then [] else '', '' @ join_str '', '' us) @ '']'' @ rest"
      by (intro skip_ws_no_ws) simp_all
    then have skip: "skip_ws tail = tail"
      by (simp add: ts join_str_Cons tail_def)
    have next_items: "JSONArray tail (acc @ [v]) = Inr (JList ((acc @ [v]) @ vs), rest)"
      unfolding tail_def by (rule Cons.IH [OF False])
    have "JSONArray (t @ '', '' @ tail) acc = JSONArray (skip_ws ('' '' @ tail)) (acc @ [v])"
      by (rule JSONArray_comma [OF scan]) (use t in \<open>simp_all add: skip_ws_delimiter\<close>)
    also have "skip_ws ('' '' @ tail) = tail"
      using skip by (simp add: skip_ws_space)
    finally have "JSONArray (t @ '', '' @ tail) acc = Inr (JList (acc @ v # vs), rest)"
      using next_items by simp
    moreover have "join_str '', '' (t # ts) @ '']'' @ rest = t @ '', '' @ tail"
      using False by (simp add: join_str_Cons tail_def)
    ultimately show ?thesis by simp
  qed
qed

lemma parses_as_array:
  assumes "list_all2 parses_as ts vs"
  shows "parses_as (array_text ts) (JList vs)"
proof -
  have "scan_once (array_text ts @ rest) = Inr (JList vs, rest)" for rest
  proof (cases "ts = []")
    case True
    with assms have "vs = []" by simp
    with True show ?thesis by (simp add: array_text_def skip_ws_delimiter)
  next
    case False
    then obtain u us where ts: "ts = u # us" by (cases ts) auto
    with assms obtain w where u: "parses_as u w" by (auto simp: list_all2_Cons1)
    from parses_as_start [OF u] obtain c cs where uc: "u = c # cs" and nws: "\<not> is_json_ws c"
      by (cases u) auto
    from parses_as_not_closing [OF u] uc have ncl: "c \<noteq> CHR '']''" by simp
    define tail where
      "tail = cs @ (if us = [] then [] else '', '' @ join_str '', '' us) @ '']'' @ rest"
    have inner: "join_str '', '' ts @ '']'' @ rest = c # tail"
      by (simp add: ts join_str_Cons uc tail_def)
    have skip: "skip_ws (c # tail) = c # tail"
      using nws by (simp add: skip_ws_def)
    have items: "JSONArray (c # tail) [] = Inr (JList vs, rest)"
      using JSONArray_items [OF assms False, of rest "[]"] by (simp only: inner) simp
    have "scan_once (CHR ''['' # c # tail) = Inr (JList vs, rest)"
      using ncl items by (simp add: skip)
    moreover have "array_text ts @ rest = CHR ''['' # c # tail"
      using inner by (simp add: array_text_def)
    ultimately show ?thesis by simp
  qed
  then show ?thesis
    by (simp add: parses_as_def array_text_def is_json_ws_def)
qed

section \<open>A numeric answer passes the filter and reads back\<close>

lemma collect_all_Inr:
  "(\<And>x. x \<in> set xs \<Longrightarrow> f x = Inr (g x)) \<Longrightarrow> collect (map f xs) = Inr (map g xs)"
  by (induction xs) simp_all

lemma json_dumps_cell:
  assumes "0 \<le> snd c"
  shows "json_dumps (cell_py c) = Inr (cell_text c)"
  using assms
  by (simp add: cell_py_def cell_text_def py_float_def int_repr_def sign_text_def digits_def
                digit_char_zero)

lemma json_dumps_row:
  assumes "list_all (\<lambda>c. 0 \<le> snd c) row"
  shows "json_dumps (PyList (map cell_py row)) = Inr (array_text (map cell_text row))"
proof -
  have "collect (map json_dumps (map cell_py row)) = Inr (map cell_text row)"
    unfolding map_map comp_def
    by (rule collect_all_Inr) (use assms in \<open>simp add: json_dumps_cell list_all_iff\<close>)
  then show ?thesis by (simp add: array_text_def)
qed

lemma json_dumps_marked:
  assumes "small_cells m"
  shows "json_dumps (py_marked m)
         = Inr (array_text (map (\<lambda>row. array_text (map cell_text row)) m))"
proof -
  have each: "json_dumps (PyList (map cell_py row)) = Inr (array_text (map cell_text row))"
    if "row \<in> set m" for row
    by (rule json_dumps_row) (use assms that in \<open>simp add: small_cells_def list_all_iff\<close>)
  have "collect (map json_dumps (map (\<lambda>row. PyList (map cell_py row)) m))
        = Inr (map (\<lambda>row. array_text (map cell_text row)) m)"
    unfolding map_map comp_def
    by (rule collect_all_Inr) (rule each)
  then show ?thesis by (simp add: py_marked_def array_text_def)
qed

lemma safe_digit: "is_digit c \<Longrightarrow> \<not> unsafe_char c"
  by (simp add: unsafe_char_def)

lemma safe_text_append: "safe_text (a @ b) = (safe_text a \<and> safe_text b)"
  by (auto simp: safe_text_def)

lemma safe_text_cell: "safe_text (cell_text c)"
  by (auto simp: safe_text_def cell_text_def unsafe_char_def is_digit_def dest: dec_digits)

lemma safe_text_join:
  "(\<And>t. t \<in> set ts \<Longrightarrow> safe_text t) \<Longrightarrow> safe_text (join_str '', '' ts)"
proof (induction "'', ''" ts rule: join_str.induct)
  case (3 t u ts)
  then show ?case
    by (simp add: safe_text_append) (simp add: safe_text_def unsafe_char_def is_space_def)
qed (simp_all add: safe_text_def)

lemma safe_text_array:
  "(\<And>t. t \<in> set ts \<Longrightarrow> safe_text t) \<Longrightarrow> safe_text (array_text ts)"
  using safe_text_join [of ts]
  by (simp add: array_text_def safe_text_append) (simp add: safe_text_def unsafe_char_def)

lemma str_replace_absent: "hd old \<notin> set s \<Longrightarrow> str_replace old new s = s"
proof (induction old new s rule: str_replace.induct)
  case (1 old new)
  show ?case by simp
next
  case (2 old new c cs)
  have "\<not> (old \<noteq> [] \<and> prefix old (c # cs))"
  proof
    assume "old \<noteq> [] \<and> prefix old (c # cs)"
    then have "hd old = c" by (cases old) auto
    with "2.prems" show False by simp
  qed
  with 2 show ?case by auto
qed

lemma safe_text_unchanged:
  assumes "safe_text t"
  shows "str_replace ''false'' ''0'' (str_replace ''true'' ''1'' t) = t"
proof -
  from assms have "CHR ''t'' \<notin> set t" "CHR ''f'' \<notin> set t"
    by (auto simp: safe_text_def unsafe_char_def is_digit_def is_space_def)
  then show ?thesis by (simp add: str_replace_absent)
qed

lemma json_loads_marked:
  assumes "small_cells m"
  shows "json_loads (marked_text m) = Inr (marked_parsed m)"
proof -
  have rows: "parses_as (array_text (map cell_text row)) (JList (map cell_parsed row))"
    if "row \<in> set m" for row
  proof (rule parses_as_array)
    from assms that have "\<forall>c\<in>set row. 0 \<le> snd c"
      by (auto simp: small_cells_def list_all_iff)
    then show "list_all2 parses_as (map cell_text row) (map cell_parsed row)"
      by (simp add: list_all2_map1 list_all2_map2 list_all2_same parses_as_cell)
  qed
  have "parses_as (marked_text m) (marked_parsed m)"
    unfolding marked_text_def marked_parsed_def
    by (rule parses_as_array)
       (simp add: list_all2_map1 list_all2_map2 list_all2_same rows)
  then have scan: "scan_once (marked_text m) = Inr (marked_parsed m, [])"
    and start: "marked_text m \<noteq> [] \<and> \<not> is_json_ws (hd (marked_text m))"
    using parses_as_scan [of "marked_text m" "marked_parsed m" "[]"]
    by (simp_all add: delimited_simps parses_as_start)
  from start have "skip_ws (marked_text m) = marked_text m"
    using skip_ws_no_ws [of "marked_text m" "[]"] by simp
  with scan show ?thesis by (simp add: json_loads_def skip_ws_def)
qed

lemma safe_text_marked: "safe_text (marked_text m)"
  unfolding marked_text_def
  by (rule safe_text_array) (auto intro!: safe_text_array simp: safe_text_cell)

lemma run_and_sanitize_marked:
  assumes "program s (deepcopy g) = (Inr (py_marked m), s')" and "small_cells m"
  shows "run_and_sanitize program s g = (Inr (np_array (marked_parsed m)), s')"
proof -
  have dumps: "json_dumps (py_marked m) = Inr (marked_text m)"
    using json_dumps_marked [OF assms(2)] by (simp add: marked_text_def)
  have same: "str_replace ''false'' ''0'' (str_replace ''true'' ''1'' (marked_text m))
              = marked_text m"
    by (rule safe_text_unchanged) (rule safe_text_marked)
  have clean: "\<not> UNSAFE_CHARS_RE_search (marked_text m)"
    using safe_text_marked [of m]
    by (simp add: UNSAFE_CHARS_RE_search_def safe_text_def list_ex_iff)
  show ?thesis
    by (simp add: run_and_sanitize_def sanitize_def assms(1) dumps same clean
                  json_loads_marked [OF assms(2)])
qed

lemma grids_identical_marked: "grids_identical (marked_parsed m) (unmarked m)"
proof -
  have cell: "cell_equal (cell_parsed (f, x)) x" for f x
    by (simp add: cell_parsed_def)
  have row: "row_identical (JList (map cell_parsed row)) (map snd row)" for row
    by (simp add: list_all_iff zip_map_map cell) (auto simp: zip_same cell)
  show ?thesis
    by (simp add: marked_parsed_def unmarked_def list_all_iff zip_map_map)
       (auto simp: zip_same row simp del: row_identical.simps)
qed

lemma try_pair_marked:
  assumes "program s (deepcopy (ex_input ex)) = (Inr (py_marked m), s')"
    and "small_cells m" and "ex_output ex = unmarked m"
  shows "try_pair program s ex = (Inr Correct, s')"
proof -
  have "run_and_sanitize program s (ex_input ex) = (Inr (np_array (marked_parsed m)), s')"
    using assms(1,2) by (rule run_and_sanitize_marked)
  moreover have "py_eq (marked_parsed m) (grid_value (ex_output ex))"
    by (simp add: py_eq_grid assms(3) grids_identical_marked)
  ultimately show ?thesis
    using np_compare_iff_py_eq [of "marked_parsed m" "grid_value (ex_output ex)"]
    by (simp add: try_pair_def compare_arrays_def except_clause_def)
qed

section \<open>The copying solver and float answers\<close>

lemma py_grid_marked: "py_grid g = py_marked (map (\<lambda>row. map (Pair False) row) g)"
  by (simp add: py_grid_def py_marked_def cell_py_def comp_def)

lemma unmarked_plain: "unmarked (map (\<lambda>row. map (Pair False) row) g) = g"
  by (simp add: unmarked_def comp_def)

lemma small_cells_plain:
  "nonneg_grid g \<Longrightarrow> small_cells (map (\<lambda>row. map (Pair False) row) g)"
  by (simp add: nonneg_grid_def small_cells_def list_all_iff)

lemma try_pair_copy:
  assumes "program s (deepcopy (ex_input ex)) = (Inr (py_grid (ex_input ex)), s')"
    and "ex_output ex = ex_input ex" and "nonneg_grid (ex_input ex)"
  shows "try_pair program s ex = (Inr Correct, s')"
proof (rule try_pair_marked)
  show "program s (deepcopy (ex_input ex))
          = (Inr (py_marked (map (\<lambda>row. map (Pair False) row) (ex_input ex))), s')"
    using assms(1) by (simp add: py_grid_marked)
  show "small_cells (map (\<lambda>row. map (Pair False) row) (ex_input ex))"
    by (rule small_cells_plain [OF assms(3)])
  show "ex_output ex = unmarked (map (\<lambda>row. map (Pair False) row) (ex_input ex))"
    by (simp add: unmarked_plain assms(2))
qed

lemma verify_loop_copy:
  assumes "returns_copy program"
    and "\<forall>ex\<in>set pairs. ex_output ex = ex_input ex \<and> nonneg_grid (ex_input ex)"
  shows "\<exists>s'. verify_loop program pairs (right, 0, None, []) s
               = (Inr (right + length pairs, 0, None, []), s')"
  using assms(2)
proof (induction pairs arbitrary: right s)
  case Nil
  show ?case by simp
next
  case (Cons ex rest)
  from assms(1) have "\<exists>s1. program s (deepcopy (ex_input ex))
                         = (Inr (py_grid (deepcopy (deepcopy (ex_input ex)))), s1)"
    by (simp add: returns_copy_def)
  then obtain s1
    where call: "program s (deepcopy (ex_input ex)) = (Inr (py_grid (ex_input ex)), s1)"
    by (auto simp: deepcopy_id)
  from Cons.prems have "ex_output ex = ex_input ex" "nonneg_grid (ex_input ex)" by simp_all
  with call have step: "try_pair program s ex = (Inr Correct, s1)"
    by (intro try_pair_copy)
  from Cons.prems have "\<forall>ex\<in>set rest. ex_output ex = ex_input ex \<and> nonneg_grid (ex_input ex)"
    by simp
  from Cons.IH [OF this, of "right + 1" s1] step show ?case by simp
qed

text \<open>
  Claim C5. For every sequence of pairs whose expected output equals the input, on grids
  of non-negative integers, verifying a solver that returns a deep copy of its input
  yields \<open>pass_count = len(pairs)\<close> (and no fail, no diagnostic, no trace).
\<close>

theorem copying_solver_passes_every_pair:
  assumes "returns_copy program"
    and "\<forall>ex\<in>set pairs. ex_output ex = ex_input ex \<and> nonneg_grid (ex_input ex)"
  shows "\<exists>s'. verify_split program pairs s = (Inr (length pairs, 0, None, []), s')"
  using verify_loop_copy [OF assms, of 0 s] by (simp add: verify_split_def)

theorem copying_solver_passes_every_pair_witness:
  "returns_copy solver_copy
   \<and> nonneg_grid (ex_input example_zero) \<and> nonneg_grid [[1, 2], [30, 4]]
   \<and> verify_split solver_copy
        [example_zero, \<lparr>ex_input = [[1, 2], [30, 4]], ex_output = [[1, 2], [30, 4]]\<rparr>] ()
      = (Inr (2, 0, None, []), ())"
proof -
  have c: "returns_copy solver_copy"
    by (simp add: returns_copy_def solver_copy_def)
  have p: "\<forall>ex\<in>set [example_zero,
                      \<lparr>ex_input = [[1, 2], [30, 4]], ex_output = [[1, 2], [30, 4]]\<rparr>].
             ex_output ex = ex_input ex \<and> nonneg_grid (ex_input ex)"
    by (simp add: example_zero_def nonneg_grid_def)
  from copying_solver_passes_every_pair [OF c p, of "()"] c p show ?thesis
    by (simp add: example_zero_def)
qed

text \<open>
  Claim C10, as the code has it. Where the expected output is a grid of non-negative
  integers and the solver returns the grid of the same shape in which some cells are
  floats equal to the expected integers, those cells below \<open>2^53\<close>, the text passes the
  filter (a period is allowed), reads back, and the pair is Correct: the comparison is
  by value, not by type. (For a negative cell, and for a float from \<open>10^16\<close> on, the claim
  fails: see the counterexample.)
\<close>

theorem float_cells_compare_equal:
  assumes "program s (deepcopy (ex_input ex)) = (Inr (py_marked m), s')"
    and "small_cells m" and "ex_output ex = unmarked m"
  shows "run_and_sanitize program s (ex_input ex) = (Inr (np_array (marked_parsed m)), s')
         \<and> try_pair program s ex = (Inr Correct, s')"
  using assms by (simp add: run_and_sanitize_marked try_pair_marked)

text \<open>The answer \<open>[[1.0, 2], [3, 4.0]]\<close> where \<open>[[1, 2], [3, 4]]\<close> is expected.\<close>

theorem float_cells_compare_equal_witness:
  "try_pair
     (solver_const (PyList [PyList [PyFloat (FloatFixed False 1 0 []), PyInt 2],
                            PyList [PyInt 3, PyFloat (FloatFixed False 4 0 [])]]))
     () \<lparr>ex_input = [[0]], ex_output = [[1, 2], [3, 4]]\<rparr>
   = (Inr Correct, ())"
proof -
  let ?m = "[[(True, 1), (False, 2)], [(False, 3), (True, 4)]] :: marked_grid"
  have a: "py_marked ?m = PyList [PyList [PyFloat (FloatFixed False 1 0 []), PyInt 2],
                                  PyList [PyInt 3, PyFloat (FloatFixed False 4 0 [])]]"
    by (simp add: py_marked_def cell_py_def py_float_def)
  have call: "solver_const (py_marked ?m) ()
                (deepcopy (ex_input \<lparr>ex_input = [[0]], ex_output = [[1, 2], [3, 4]]\<rparr>))
              = (Inr (py_marked ?m), ())"
    by (simp add: solver_const_def)
  have small: "small_cells ?m" by (simp add: small_cells_def)
  have out: "ex_output \<lparr>ex_input = [[0]], ex_output = [[1, 2], [3, 4]]\<rparr> = unmarked ?m"
    by (simp add: unmarked_def)
  note inst = float_cells_compare_equal
    [where program = "solver_const (py_marked ?m)" and s = "()" and s' = "()" and m = ?m
       and ex = "\<lparr>ex_input = [[0]], ex_output = [[1, 2], [3, 4]]\<rparr>"]
  from inst [OF call small out] show ?thesis
    by (simp only: a)
qed

text \<open>
  The claim as stated, for every grid of integers, fails where the text of the float has
  a character outside the filter. The answer \<open>[[-1.0]]\<close> where \<open>[[-1]]\<close> is expected has a
  minus sign, and the answer \<open>[[1e+16]]\<close> where \<open>[[10000000000000000]]\<close> is expected has
  the exponent of the \<open>repr\<close> of a float from \<open>10^16\<close> on: both are execution errors, not
  Correct.
\<close>

theorem float_cell_outside_filter_is_error:
  "try_pair (solver_const (PyList [PyList [PyFloat (FloatFixed True 1 0 [])]])) ()
       \<lparr>ex_input = [[0]], ex_output = [[- 1]]\<rparr>
     = (Inr (Errored (ValueError ''Invalid output from user code: [[-1.0]]'')), ())
   \<and> try_pair (solver_const (PyList [PyList [PyFloat (FloatSci False 1 [] 16)]])) ()
       \<lparr>ex_input = [[0]], ex_output = [[10000000000000000]]\<rparr>
     = (Inr (Errored (ValueError ''Invalid output from user code: [[1e+16]]'')), ())"
  by code_simp

section \<open>The scanner consumes its input\<close>

lemma scan_number_rest:
  fixes s :: string
  defines "ip \<equiv> (if take 1 s = ''0'' then ''0'' else takeWhile is_digit s)"
  shows "snd (scan_number s) = drop (length ip) s
         \<or> (\<exists>d r1 k. drop (length ip) s = d # r1 \<and> snd (scan_number s) = drop k r1)"
proof (cases "drop (length ip) s")
  case Nil
  then show ?thesis
    unfolding scan_number_def ip_def Let_def by simp
next
  case (Cons d r1)
  then have "snd (scan_number s) = drop (length ip) s
             \<or> snd (scan_number s) = drop (length (takeWhile is_digit r1)) r1"
    unfolding scan_number_def ip_def Let_def by simp
  with Cons show ?thesis by blast
qed

lemma scan_number_consumes:
  assumes "is_digit c"
  shows "length (snd (scan_number (c # cs))) < length (c # cs)"
proof -
  define ip where
    "ip = (if take 1 (c # cs) = ''0'' then ''0'' else takeWhile is_digit (c # cs))"
  from assms have "ip \<noteq> []" by (simp add: ip_def)
  then have short: "length (drop (length ip) (c # cs)) < length (c # cs)"
    by (cases ip) simp_all
  from scan_number_rest [of "c # cs"]
  consider "snd (scan_number (c # cs)) = drop (length ip) (c # cs)"
    | d r1 k where "drop (length ip) (c # cs) = d # r1"
        "snd (scan_number (c # cs)) = drop k r1"
    unfolding ip_def by blast
  then show ?thesis
  proof cases
    case 1
    with short show ?thesis by simp
  next
    case 2
    from 2(1) short have "length r1 < length (c # cs)" by simp
    then have "length (drop k r1) < length (c # cs)" by simp
    with 2(2) show ?thesis by simp
  qed
qed

lemma scan_once_consumes:
  "scan_once t = Inr (v, r) \<Longrightarrow> length r < length t"
  "JSONArray t vals = Inr (v, r) \<Longrightarrow> length r < length t"
proof (induction t and t vals arbitrary: v r and v r rule: scan_once_JSONArray.induct)
  case 1
  then show ?case by simp
next
  case (2 c cs)
  show ?case
  proof (cases "c = CHR ''[''")
    case bracket: True
    show ?thesis
    proof (cases "skip_ws cs")
      case Nil
      with "2.prems" bracket have "JSONArray [] [] = Inr (v, r)" by simp
      from "2.IH"(1) [OF bracket Nil this] show ?thesis by simp
    next
      case (Cons d r0)
      from skip_ws_Cons_shorter [OF Cons] have r0: "length r0 < length cs" .
      show ?thesis
      proof (cases "d = CHR '']''")
        case True
        with "2.prems" bracket Cons r0 show ?thesis by auto
      next
        case False
        with "2.prems" bracket Cons have "JSONArray (d # r0) [] = Inr (v, r)" by simp
        from "2.IH"(2) [OF bracket Cons False this] r0 show ?thesis by simp
      qed
    qed
  next
    case False
    with "2.prems" have d: "is_digit c" and "scan_number (c # cs) = (v, r)"
      by (auto split: if_splits)
    with scan_number_consumes [OF d, of cs] show ?thesis by simp
  qed
next
  case (3 s vals)
  note unfolded = "3.prems" [unfolded JSONArray.simps [of s vals]]
  show ?case
  proof (cases "scan_once s")
    case (Inl e)
    with unfolded show ?thesis by simp
  next
    case (Inr p)
    obtain v0 r0 where p: "p = (v0, r0)" by (cases p)
    show ?thesis
    proof (cases "length r0 < length s")
      case False
      with unfolded Inr p show ?thesis by simp
    next
      case shorter: True
      show ?thesis
      proof (cases "skip_ws r0")
        case Nil
        with unfolded Inr p shorter show ?thesis by simp
      next
        case (Cons d r')
        from skip_ws_Cons_shorter [OF Cons] have r': "length r' < length r0" .
        show ?thesis
        proof (cases "d = CHR '',''")
          case True
          with unfolded Inr p shorter Cons
          have rec: "JSONArray (skip_ws r') (vals @ [v0]) = Inr (v, r)" by simp
          from True have "d \<noteq> CHR '']''" by simp
          from "3.IH"(2) [OF Inr p [symmetric] shorter Cons this True rec]
          have "length r < length (skip_ws r')" .
          with length_skip_ws [of r'] r' shorter show ?thesis by simp
        next
          case False
          with unfolded Inr p shorter Cons r' show ?thesis by (auto split: if_splits)
        qed
      qed
    qed
  qed
qed

text \<open>So the test in the array loop never fails: the loop is the decoder's.\<close>

lemma JSONArray_without_test:
  "JSONArray s vals =
     (case scan_once s of
        Inl e \<Rightarrow> Inl e
      | Inr (v, r) \<Rightarrow>
          (case skip_ws r of
             [] \<Rightarrow> Inl (JSONDecodeError ''Expecting ',' delimiter'')
           | d # r' \<Rightarrow>
               if d = CHR '']'' then Inr (JList (vals @ [v]), r')
               else if d = CHR '','' then JSONArray (skip_ws r') (vals @ [v])
               else Inl (JSONDecodeError ''Expecting ',' delimiter'')))"
  by (subst JSONArray.simps) (auto split: sum.splits dest: scan_once_consumes(1))

section \<open>Entries for a missing solver file\<close>

text \<open>
  eval_all.py: when the file is reported missing and the task loads, the entry is the
  default one with every pair of the task counted as failed.
\<close>

lemma eval_all_missing_artifact:
  assumes "load_task (storage w) tid = Inr tjson"
  shows "eval_all_eval_one w modules tid False =
           (Inr \<lparr>task_id = Some tid,
                 meta_file = path_join ''submission'' (''task'' @ task_id_str tid @ ''.py''),
                 exists = False, bytes = 0, score = 0.001, passed = False,
                 arc_agi = \<lparr>n_pass = 0, n_fail = length (agi_pairs_of tjson)\<rparr>,
                 arc_gen = \<lparr>n_pass = 0, n_fail = length (gen_pairs_of tjson)\<rparr>,
                 error = []\<rparr>,
            modules)"
  using assms by (simp add: eval_all_eval_one_def Let_def agi_pairs_of_def gen_pairs_of_def)

text \<open>
  compare_solutions.py: when the file is missing the entry is returned as it was created,
  whatever the task holds.
\<close>

lemma compare_missing_artifact:
  assumes "fs w (solver_path src_dir tid) = None"
  shows "compare_eval_one w modules src_dir tid =
           (Inr \<lparr>task_id = None,
                 meta_file = path_join (relpath w src_dir) (''task'' @ task_id_str tid @ ''.py''),
                 exists = False, bytes = 0, score = 0.001, passed = False,
                 arc_agi = \<lparr>n_pass = 0, n_fail = 0\<rparr>,
                 arc_gen = \<lparr>n_pass = 0, n_fail = 0\<rparr>,
                 error = []\<rparr>,
            modules)"
  using assms by (simp add: compare_eval_one_def Let_def)

lemma sample_task_counts:
  "length (agi_pairs_of sample_task) = 2" "length (gen_pairs_of sample_task) = 1"
  by (simp_all add: agi_pairs_of_def gen_pairs_of_def get_pairs_def sample_task_def)

lemma load_sample_task: "load_task (storage bare_world) 1 = Inr sample_task"
  by (simp add: load_task_def bare_world_def)

text \<open>
  C8. An orchestrator records, for a task whose solver file is absent, the default entry
  (\<open>exists\<close> and \<open>passed\<close> false, score 0.001, 0 bytes, pass counts 0) with the fail count
  of each split equal to the number of pairs of the split. Task 1 here has two pairs in
  \<open>train\<close> and one in \<open>arc-gen\<close>, and no folder holds a solver for it: eval_all.py
  records the fail counts 2 and 1, compare_solutions.py records 0 and 0.
\<close>

theorem missing_artifact_entries:
  "load_task (storage bare_world) 1 = Inr sample_task
   \<and> length (agi_pairs_of sample_task) = 2
   \<and> length (gen_pairs_of sample_task) = 1
   \<and> fst (eval_all_eval_one bare_world Map.empty 1 False) =
       Inr \<lparr>task_id = Some 1, meta_file = ''submission/task001.py'',
            exists = False, bytes = 0, score = 0.001, passed = False,
            arc_agi = \<lparr>n_pass = 0, n_fail = 2\<rparr>, arc_gen = \<lparr>n_pass = 0, n_fail = 1\<rparr>,
            error = []\<rparr>
   \<and> fst (compare_eval_one bare_world Map.empty ''/repo/submission_better'' 1) =
       Inr \<lparr>task_id = None, meta_file = ''submission_better/task001.py'',
            exists = False, bytes = 0, score = 0.001, passed = False,
            arc_agi = \<lparr>n_pass = 0, n_fail = 0\<rparr>, arc_gen = \<lparr>n_pass = 0, n_fail = 0\<rparr>,
            error = []\<rparr>"
proof -
  have name: "task_id_str 1 = ''001''"
    by code_simp
  have absent: "fs bare_world (solver_path ''/repo/submission_better'' 1) = None"
    by (simp add: bare_world_def)
  have rel: "relpath bare_world ''/repo/submission_better'' = ''submission_better''"
    by (simp add: bare_world_def)
  show ?thesis
    by (simp add: load_sample_task sample_task_counts
          eval_all_missing_artifact [OF load_sample_task]
          compare_missing_artifact [OF absent] name rel path_join_def)
qed

section \<open>Module names of the loaders\<close>

lemma digit_val_zero: "digit_val CHR ''0'' = 0"
  by (simp add: digit_val_def)

lemma nat_of_digits_zeros: "nat_of_digits (replicate k CHR ''0'' @ t) = nat_of_digits t"
  by (induction k) (simp_all add: nat_of_digits_def digit_val_zero)

lemma nat_of_digits_zero_pad: "nat_of_digits (zero_pad w (dec n)) = n"
  by (simp add: zero_pad_def nat_of_digits_zeros nat_of_digits_dec)

lemma is_digit_zero: "is_digit CHR ''0''"
  by (simp add: is_digit_def)

lemma zero_pad_digits: "c \<in> set (zero_pad w (dec n)) \<Longrightarrow> is_digit c"
  by (auto simp: zero_pad_def is_digit_zero dec_digits)

lemma zero_pad_nonempty: "zero_pad w (dec n) \<noteq> []"
  by (simp add: zero_pad_def dec_nonempty)

lemma not_digit_minus: "\<not> is_digit CHR ''-''"
  by (simp add: is_digit_def)

lemma not_digit_underscore: "\<not> is_digit CHR ''_''"
  by (simp add: is_digit_def)

lemma zero_pad_not_minus: "zero_pad w (dec n) \<noteq> CHR ''-'' # t"
proof
  assume eq: "zero_pad w (dec n) = CHR ''-'' # t"
  then have "CHR ''-'' \<in> set (zero_pad w (dec n))"
    by simp
  then show False
    using zero_pad_digits not_digit_minus by blast
qed

text \<open>The three-digit text of a task id determines the id.\<close>

lemma task_id_str_inj:
  assumes "task_id_str a = task_id_str b"
  shows "a = b"
proof (cases "a < 0")
  case True
  note a = this
  show ?thesis
  proof (cases "b < 0")
    case True
    with a assms have "zero_pad 2 (dec (nat (- a))) = zero_pad 2 (dec (nat (- b)))"
      by (simp add: task_id_str_def)
    then have "nat_of_digits (zero_pad 2 (dec (nat (- a)))) = nat_of_digits (zero_pad 2 (dec (nat (- b))))"
      by simp
    then have "nat (- a) = nat (- b)"
      by (simp only: nat_of_digits_zero_pad)
    with a True show ?thesis
      by simp
  next
    case False
    with a assms have "zero_pad 3 (dec (nat b)) = CHR ''-'' # zero_pad 2 (dec (nat (- a)))"
      by (simp add: task_id_str_def)
    then show ?thesis
      by (simp add: zero_pad_not_minus)
  qed
next
  case False
  note a = this
  show ?thesis
  proof (cases "b < 0")
    case True
    with a assms have "zero_pad 3 (dec (nat a)) = CHR ''-'' # zero_pad 2 (dec (nat (- b)))"
      by (simp add: task_id_str_def)
    then show ?thesis
      by (simp add: zero_pad_not_minus)
  next
    case False
    with a assms have "zero_pad 3 (dec (nat a)) = zero_pad 3 (dec (nat b))"
      by (simp add: task_id_str_def)
    then have "nat_of_digits (zero_pad 3 (dec (nat a))) = nat_of_digits (zero_pad 3 (dec (nat b)))"
      by simp
    then have "nat a = nat b"
      by (simp only: nat_of_digits_zero_pad)
    with a False show ?thesis
      by simp
  qed
qed

lemma task_id_str_no_underscore: "CHR ''_'' \<notin> set (task_id_str t)"
  using zero_pad_digits not_digit_underscore by (auto simp: task_id_str_def)

text \<open>evaluator.py loads from one directory; there the module name determines the task.\<close>

lemma mod_name_submission_inj:
  "mod_name_submission a = mod_name_submission b \<Longrightarrow> a = b"
  by (simp add: mod_name_submission_def task_id_str_inj)

lemma split_at_last:
  assumes "xs @ c # ys = xs' @ c # ys'" and "c \<notin> set ys" and "c \<notin> set ys'"
  shows "xs = xs' \<and> ys = ys'"
proof -
  have "takeWhile (\<lambda>x. x \<noteq> c) (rev (xs @ c # ys)) = rev ys"
    using assms(2) by (auto simp: takeWhile_tail)
  moreover have "takeWhile (\<lambda>x. x \<noteq> c) (rev (xs' @ c # ys')) = rev ys'"
    using assms(3) by (auto simp: takeWhile_tail)
  ultimately have "ys = ys'"
    using assms(1) by (metis rev_rev_ident)
  with assms(1) show ?thesis
    by simp
qed

text \<open>
  compare_solutions.py: two loads have the same module name exactly when the task is
  the same and the last components of the two directories are.
\<close>

lemma mod_name_from_eq_iff:
  "mod_name_from d1 t1 = mod_name_from d2 t2 \<longleftrightarrow> basename d1 = basename d2 \<and> t1 = t2"
proof
  assume "mod_name_from d1 t1 = mod_name_from d2 t2"
  then have "basename d1 @ CHR ''_'' # task_id_str t1 = basename d2 @ CHR ''_'' # task_id_str t2"
    by (simp add: mod_name_from_def)
  then have "basename d1 = basename d2 \<and> task_id_str t1 = task_id_str t2"
    by (rule split_at_last) (rule task_id_str_no_underscore)+
  then show "basename d1 = basename d2 \<and> t1 = t2"
    by (simp add: task_id_str_inj)
next
  assume "basename d1 = basename d2 \<and> t1 = t2"
  then show "mod_name_from d1 t1 = mod_name_from d2 t2"
    by (simp add: mod_name_from_def)
qed

lemma load_module_registers:
  "files file_path = Some f
   \<Longrightarrow> snd (load_module files modules mod_name file_path) = modules(mod_name \<mapsto> f)"
  by (simp add: load_module_def Let_def split: unit_code.splits entry.splits)

text \<open>
  C7. Every load gets a module name that belongs to its pair of source directory and task
  alone, so that two loads from different folders never share a name or replace each
  other's module. The folders \<open>/repo/a/sub\<close> and \<open>/repo/b/sub\<close> each hold a solver for
  task 1; compare_solutions.py names both modules \<open>cmp_sub_001\<close>, and the second load
  takes the place of the first in \<open>sys.modules\<close>. Two folders given with a closing slash
  have the empty last component, and share the name \<open>cmp__001\<close>.
\<close>

theorem same_folder_name_same_module:
  "mod_name_from ''/repo/a/sub'' 1 = ''cmp_sub_001''
   \<and> mod_name_from ''/repo/b/sub'' 1 = ''cmp_sub_001''
   \<and> snd (import_solver_from two_parents Map.empty ''/repo/a/sub'' 1) ''cmp_sub_001''
       = Some copy_file
   \<and> snd (import_solver_from two_parents
            (snd (import_solver_from two_parents Map.empty ''/repo/a/sub'' 1))
            ''/repo/b/sub'' 1) ''cmp_sub_001''
       = Some crash_file
   \<and> file_bytes copy_file = 40 \<and> file_bytes crash_file = 21
   \<and> mod_name_from ''/repo/submission/'' 1 = ''cmp__001''
   \<and> mod_name_from ''/repo/submission_better/'' 1 = ''cmp__001''"
proof -
  have name: "task_id_str 1 = ''001''"
    by code_simp
  have names: "mod_name_from ''/repo/a/sub'' 1 = ''cmp_sub_001''"
    "mod_name_from ''/repo/b/sub'' 1 = ''cmp_sub_001''"
    "mod_name_from ''/repo/submission/'' 1 = ''cmp__001''"
    "mod_name_from ''/repo/submission_better/'' 1 = ''cmp__001''"
    by (simp_all add: mod_name_from_def basename_def name)
  have paths: "solver_path ''/repo/a/sub'' 1 = ''/repo/a/sub/task001.py''"
    "solver_path ''/repo/b/sub'' 1 = ''/repo/b/sub/task001.py''"
    by (simp_all add: solver_path_def path_join_def name)
  have files: "two_parents ''/repo/a/sub/task001.py'' = Some copy_file"
    "two_parents ''/repo/b/sub/task001.py'' = Some crash_file"
    by (simp_all add: two_parents_def)
  have first: "snd (import_solver_from two_parents Map.empty ''/repo/a/sub'' 1)
                 = [''cmp_sub_001'' \<mapsto> copy_file]"
    by (simp add: import_solver_from_def names paths load_module_registers [where files = two_parents, OF files(1)])
  have second: "snd (import_solver_from two_parents [''cmp_sub_001'' \<mapsto> copy_file] ''/repo/b/sub'' 1)
                 = [''cmp_sub_001'' \<mapsto> crash_file]"
    by (simp add: import_solver_from_def names paths load_module_registers [where files = two_parents, OF files(2)])
  have sizes: "file_bytes copy_file = 40" "file_bytes crash_file = 21"
    by (simp_all add: copy_file_def crash_file_def)
  show ?thesis
    by (simp add: names first second sizes)
qed

section \<open>Objects that were there before keep their contents\<close>

lemma lookup_Some: "lookup h a = Some ob \<longleftrightarrow> a < length h \<and> h ! a = ob"
  by (auto simp: lookup_def)

lemma lookup_append: "lookup h a = Some ob \<Longrightarrow> lookup (h @ k) a = Some ob"
  by (auto simp: lookup_def nth_append)

lemma read_row_append: "read_row h r = Some xs \<Longrightarrow> read_row (h @ k) r = Some xs"
  by (auto simp: read_row_def lookup_append split: option.splits obj.splits)

lemma those_map_Some: "those (map Some ys) = Some ys"
  by (induction ys) simp_all

lemma those_eq_Some: "those xs = Some ys \<longleftrightarrow> xs = map Some ys"
proof
  show "those xs = Some ys \<Longrightarrow> xs = map Some ys"
  proof (induction xs arbitrary: ys)
    case Nil
    then show ?case by simp
  next
    case (Cons x xs)
    then show ?case by (cases x) (auto split: option.splits)
  qed
next
  show "xs = map Some ys \<Longrightarrow> those xs = Some ys"
    by (simp add: those_map_Some)
qed

lemma read_grid_Some:
  "read_grid h a = Some g
   \<longleftrightarrow> (\<exists>rs. lookup h a = Some (Grid rs) \<and> map (read_row h) rs = map Some g)"
  by (auto simp: read_grid_def those_eq_Some split: option.splits obj.splits)

lemma read_rows_append:
  assumes "map (read_row h) rs = map Some g"
  shows "map (read_row (h @ k)) rs = map Some g"
  using assms
proof (induction rs arbitrary: g)
  case Nil
  then show ?case by simp
next
  case (Cons r rs)
  then obtain x g' where g: "g = x # g'" and r: "read_row h r = Some x"
    and rest: "map (read_row h) rs = map Some g'"
    by (cases g) auto
  from Cons.IH [OF rest] read_row_append [OF r] g show ?case
    by simp
qed

lemma read_grid_append: "read_grid h a = Some g \<Longrightarrow> read_grid (h @ k) a = Some g"
  unfolding read_grid_Some by (auto simp: lookup_append read_rows_append)

lemma read_grid_prefix: "prefix h h' \<Longrightarrow> read_grid h a = Some g \<Longrightarrow> read_grid h' a = Some g"
  by (auto simp: prefix_def read_grid_append)

lemma prefix_unchanged:
  assumes "prefix h0 h1" and "length h1 \<le> length h2"
    and "\<And>b. b < length h0 \<Longrightarrow> h2 ! b = h1 ! b"
  shows "prefix h0 h2"
proof -
  from assms(1) obtain k where h1: "h1 = h0 @ k"
    by (auto simp: prefix_def)
  have "take (length h0) h2 = h0"
  proof (rule nth_equalityI)
    show "length (take (length h0) h2) = length h0"
      using assms(2) h1 by simp
  next
    fix i
    assume "i < length (take (length h0) h2)"
    then have i: "i < length h0" by simp
    with assms(3) [OF i] h1 show "take (length h0) h2 ! i = h0 ! i"
      by (simp add: nth_append)
  qed
  then show ?thesis
    by (metis take_is_prefix)
qed

subsection \<open>The deep copy\<close>

text \<open>
  What the memo holds while the rows of a grid \<open>x\<close> are copied: the grid itself with its
  copy \<open>n\<close>, and rows with their copies, which are newer than \<open>n\<close> and hold the same ints.
\<close>

definition memo_ok :: "heap \<Rightarrow> addr \<Rightarrow> addr \<Rightarrow> (addr \<times> addr) list \<Rightarrow> bool" where
  "memo_ok h n x memo =
     (\<forall>r y. map_of memo r = Some y \<longrightarrow>
        (r = x \<and> y = n)
        \<or> (n < y \<and> y < length h \<and> (\<exists>xs. read_row h r = Some xs \<and> read_row h y = Some xs)))"

lemma memo_ok_append: "memo_ok h n x memo \<Longrightarrow> memo_ok (h @ k) n x memo"
  unfolding memo_ok_def by (fastforce simp: read_row_append)

lemma copy_rows_spec:
  assumes "memo_ok h n x memo"
    and "map (read_row h) rs = map Some g"
    and "lookup h x = Some (Grid gs)"
    and "n < length h"
  shows "\<exists>ys k. copy_rows h memo rs = Some (ys, h @ k)
           \<and> (\<forall>y\<in>set ys. n < y \<and> y < length (h @ k))
           \<and> map (read_row (h @ k)) ys = map Some g
           \<and> (\<forall>ob\<in>set k. \<exists>xs. ob = Row xs)"
  using assms
proof (induction rs arbitrary: h memo g)
  case Nil
  then show ?case by simp
next
  case (Cons r rs)
  from Cons.prems(2) obtain xs g' where g: "g = xs # g'" and r: "read_row h r = Some xs"
    and rest: "map (read_row h) rs = map Some g'"
    by (cases g) auto
  from r Cons.prems(3) have rx: "r \<noteq> x"
    by (auto simp: read_row_def)
  show ?case
  proof (cases "map_of memo r")
    case (Some y)
    with Cons.prems(1) rx
    have "n < y \<and> y < length h \<and> (\<exists>xs'. read_row h r = Some xs' \<and> read_row h y = Some xs')"
      unfolding memo_ok_def by blast
    with r have y: "n < y" "y < length h" "read_row h y = Some xs"
      by auto
    from Cons.IH [OF Cons.prems(1) rest Cons.prems(3) Cons.prems(4)]
    obtain ys k where run: "copy_rows h memo rs = Some (ys, h @ k)"
      and ys: "\<forall>y\<in>set ys. n < y \<and> y < length (h @ k)"
      and vals: "map (read_row (h @ k)) ys = map Some g'"
      and new: "\<forall>ob\<in>set k. \<exists>xs. ob = Row xs"
      by blast
    from Some run have "copy_rows h memo (r # rs) = Some (y # ys, h @ k)"
      by simp
    moreover from y ys have "\<forall>z\<in>set (y # ys). n < z \<and> z < length (h @ k)"
      by auto
    moreover from vals read_row_append [OF y(3), of k] g
    have "map (read_row (h @ k)) (y # ys) = map Some g"
      by simp
    ultimately show ?thesis
      using new by blast
  next
    case None
    from r have look: "lookup h r = Some (Row xs)"
      by (auto simp: read_row_def split: option.splits obj.splits)
    let ?h1 = "h @ [Row xs]"
    let ?memo1 = "(r, length h) # memo"
    have new_row: "read_row ?h1 (length h) = Some xs"
      by (simp add: read_row_def lookup_def)
    have memo1: "memo_ok ?h1 n x ?memo1"
      unfolding memo_ok_def
    proof (intro allI impI)
      fix r' y
      assume m: "map_of ?memo1 r' = Some y"
      show "(r' = x \<and> y = n)
            \<or> (n < y \<and> y < length ?h1
                \<and> (\<exists>xs'. read_row ?h1 r' = Some xs' \<and> read_row ?h1 y = Some xs'))"
      proof (cases "r' = r")
        case True
        with m have "y = length h" by simp
        with True Cons.prems(4) read_row_append [OF r, of "[Row xs]"] new_row
        show ?thesis by auto
      next
        case False
        with m have "map_of memo r' = Some y" by simp
        with memo_ok_append [OF Cons.prems(1), of "[Row xs]"] show ?thesis
          unfolding memo_ok_def by blast
      qed
    qed
    have n1: "n < length ?h1"
      using Cons.prems(4) by simp
    from Cons.IH [OF memo1 read_rows_append [OF rest] lookup_append [OF Cons.prems(3)] n1]
    obtain ys k where run: "copy_rows ?h1 ?memo1 rs = Some (ys, ?h1 @ k)"
      and ys: "\<forall>y\<in>set ys. n < y \<and> y < length (?h1 @ k)"
      and vals: "map (read_row (?h1 @ k)) ys = map Some g'"
      and new: "\<forall>ob\<in>set k. \<exists>xs. ob = Row xs"
      by blast
    from None look run
    have "copy_rows h memo (r # rs) = Some (length h # ys, h @ (Row xs # k))"
      by simp
    moreover from ys Cons.prems(4)
    have "\<forall>z\<in>set (length h # ys). n < z \<and> z < length (h @ (Row xs # k))"
      by auto
    moreover from vals read_row_append [OF new_row, of k] g
    have "map (read_row (h @ (Row xs # k))) (length h # ys) = map Some g"
      by simp
    moreover from new have "\<forall>ob\<in>set (Row xs # k). \<exists>xs. ob = Row xs"
      by simp
    ultimately show ?thesis
      by blast
  qed
qed

text \<open>
  The deep copy of a grid is a new object that stands for the same grid; it leaves every
  object that was there as it was, and no such object can be reached from the copy.
\<close>

lemma deepcopy_ref_grid:
  assumes "read_grid h x = Some g"
  shows "\<exists>h'. deepcopy_ref h x = Some (length h, h')
           \<and> prefix h h'
           \<and> read_grid h' (length h) = Some g
           \<and> (\<forall>b\<in>reach h' (length h). length h \<le> b)"
proof -
  let ?n = "length h"
  let ?h0 = "h @ [Grid []]"
  from assms obtain rs where x: "lookup h x = Some (Grid rs)"
    and rows: "map (read_row h) rs = map Some g"
    unfolding read_grid_Some by blast
  have memo: "memo_ok ?h0 ?n x [(x, ?n)]"
    by (simp add: memo_ok_def)
  from copy_rows_spec [OF memo read_rows_append [OF rows] lookup_append [OF x]]
  obtain ys k where run: "copy_rows ?h0 [(x, ?n)] rs = Some (ys, ?h0 @ k)"
    and ys: "\<forall>y\<in>set ys. ?n < y \<and> y < length (?h0 @ k)"
    and vals: "map (read_row (?h0 @ k)) ys = map Some g"
    and new: "\<forall>ob\<in>set k. \<exists>xs. ob = Row xs"
    by auto
  let ?h' = "h @ Grid ys # k"
  have upd: "(?h0 @ k)[?n := Grid ys] = ?h'"
    by (simp add: list_update_append)
  from x run upd have copy: "deepcopy_ref h x = Some (?n, ?h')"
    by (simp add: deepcopy_ref_def Let_def)
  have at_n: "lookup ?h' ?n = Some (Grid ys)"
    by (simp add: lookup_def)
  have same: "read_row ?h' y = read_row (?h0 @ k) y" if "y \<noteq> ?n" for y
    using that by (simp add: read_row_def lookup_def nth_append nth_Cons split: nat.splits)
  from ys have "map (read_row ?h') ys = map (read_row (?h0 @ k)) ys"
    by (intro map_cong refl same) auto
  with vals at_n have val: "read_grid ?h' ?n = Some g"
    unfolding read_grid_Some by simp
  have fresh: "?n \<le> b" if "b \<in> reach ?h' ?n" for b
    using that
  proof (induction rule: reach.induct)
    case self
    show ?case by simp
  next
    case (item b rs' r)
    show ?case
    proof (cases "b = ?n")
      case True
      with item.hyps(2) at_n have "rs' = ys" by simp
      with item.hyps(3) ys show ?thesis by auto
    next
      case False
      with item.IH have b: "?n < b" by simp
      from item.hyps(2) have at_b: "b < length ?h'" "?h' ! b = Grid rs'"
        by (auto simp: lookup_Some)
      define j where "j = b - Suc ?n"
      with b have bj: "b = ?n + Suc j" by simp
      from at_b have "k ! j = Grid rs'" and "j < length k"
        unfolding bj by (simp_all add: nth_append)
      with new show ?thesis
        by (metis nth_mem obj.distinct(1))
    qed
  qed
  from copy val fresh show ?thesis
    by (auto simp: prefix_def)
qed

subsection \<open>One pair, and the loop\<close>

lemma confined_logging_ref: "confined n program \<Longrightarrow> confined n (logging_ref program)"
  unfolding confined_def logging_ref_def
  by (auto split: prod.splits)

lemma run_and_sanitize_ref_frame:
  assumes conf: "confined (length h0) program"
    and pre: "prefix h0 h"
    and inp: "read_grid h0 grid_in = Some gi"
  shows "\<exists>r s' h'. run_and_sanitize_ref (logging_ref program) (seen, s) h grid_in
                     = Some ((r, (seen @ [(length h, Some gi)], s')), h')
                 \<and> prefix h0 h'"
proof -
  from deepcopy_ref_grid [OF read_grid_prefix [OF pre inp]]
  obtain h1 where copy: "deepcopy_ref h grid_in = Some (length h, h1)"
    and ext: "prefix h h1"
    and val: "read_grid h1 (length h) = Some gi"
    and fresh: "\<forall>b\<in>reach h1 (length h). length h \<le> b"
    by blast
  obtain r s' h2 where call: "program s h1 (length h) = ((r, s'), h2)"
    by (metis prod.exhaust)
  from pre have len: "length h0 \<le> length h"
    by (simp add: prefix_length_le)
  from ext have len1: "length h \<le> length h1"
    by (simp add: prefix_length_le)
  from conf call have grow: "length h1 \<le> length h2"
    and keep: "\<And>b. b < length h0 \<Longrightarrow> b < length h1 \<Longrightarrow> b \<notin> reach h1 (length h) \<Longrightarrow> h2 ! b = h1 ! b"
    unfolding confined_def by blast+
  have "h2 ! b = h1 ! b" if "b < length h0" for b
  proof (rule keep [OF that])
    from that len len1 show "b < length h1" by simp
    from that len fresh show "b \<notin> reach h1 (length h)" by auto
  qed
  with pre ext grow have frame: "prefix h0 h2"
    by (intro prefix_unchanged [of h0 h1 h2]) auto
  from copy call val
  have "run_and_sanitize_ref (logging_ref program) (seen, s) h grid_in
          = Some ((case r of Inl e \<Rightarrow> Inl e | Inr result \<Rightarrow> sanitize result,
                   (seen @ [(length h, Some gi)], s')), h2)"
    by (simp add: run_and_sanitize_ref_def logging_ref_def split: sum.splits)
  with frame show ?thesis
    by blast
qed

lemma try_pair_ref_frame:
  assumes conf: "confined (length h0) program"
    and pre: "prefix h0 h"
    and inp: "read_grid h0 (input_ref ex) = Some gi"
    and outp: "read_grid h0 (output_ref ex) = Some go"
  shows "\<exists>r s' h'. try_pair_ref (logging_ref program) (seen, s) h ex
                     = Some ((r, (seen @ [(length h, Some gi)], s')), h')
                 \<and> prefix h0 h'"
proof -
  from run_and_sanitize_ref_frame [OF conf pre inp, of seen s]
  obtain r s' h' where run: "run_and_sanitize_ref (logging_ref program) (seen, s) h (input_ref ex)
                     = Some ((r, (seen @ [(length h, Some gi)], s')), h')"
    and frame: "prefix h0 h'"
    by blast
  from read_grid_prefix [OF frame outp] have "read_grid h' (output_ref ex) = Some go" .
  with run frame show ?thesis
    by (cases r) (simp_all add: try_pair_ref_def)
qed

lemma verify_loop_ref_frame:
  assumes conf: "confined (length h0) program"
    and pre: "prefix h0 h"
    and grids: "\<forall>ex\<in>set pairs. is_grid h0 (input_ref ex) \<and> is_grid h0 (output_ref ex)"
  shows "\<exists>res seen' s' h'.
           verify_loop_ref (logging_ref program) pairs acc (seen, s) h
             = Some ((res, (seen @ seen', s')), h')
         \<and> prefix h0 h'
         \<and> map snd seen' = map (\<lambda>ex. read_grid h0 (input_ref ex)) (take (length seen') pairs)
         \<and> (\<forall>c\<in>set (map fst seen'). length h0 \<le> c)
         \<and> (isl res \<or> length seen' = length pairs)"
  using pre grids
proof (induction pairs arbitrary: acc seen s h)
  case Nil
  then show ?case by simp
next
  case (Cons ex rest)
  from Cons.prems(2) obtain gi go where inp: "read_grid h0 (input_ref ex) = Some gi"
    and outp: "read_grid h0 (output_ref ex) = Some go"
    by (auto simp: is_grid_def)
  from try_pair_ref_frame [OF conf Cons.prems(1) inp outp, of seen s]
  obtain r s1 h1 where step: "try_pair_ref (logging_ref program) (seen, s) h ex
                     = Some ((r, (seen @ [(length h, Some gi)], s1)), h1)"
    and frame: "prefix h0 h1"
    by blast
  from Cons.prems(1) have len: "length h0 \<le> length h"
    by (simp add: prefix_length_le)
  show ?case
  proof (cases r)
    case (Inl e)
    with step frame inp len show ?thesis
      by (intro exI [of _ "Inl e"] exI [of _ "[(length h, Some gi)]"] exI [of _ s1] exI [of _ h1])
         simp
  next
    case (Inr v)
    from Cons.prems(2) have rest: "\<forall>ex\<in>set rest. is_grid h0 (input_ref ex) \<and> is_grid h0 (output_ref ex)"
      by simp
    from Cons.IH [OF frame rest,
        of "record_verdict (input_ref ex) (output_ref ex) v acc" "seen @ [(length h, Some gi)]" s1]
    obtain res seen' s' h' where
      run: "verify_loop_ref (logging_ref program) rest
              (record_verdict (input_ref ex) (output_ref ex) v acc)
              (seen @ [(length h, Some gi)], s1) h1
            = Some ((res, ((seen @ [(length h, Some gi)]) @ seen', s')), h')"
      and frame': "prefix h0 h'"
      and vals: "map snd seen' = map (\<lambda>ex. read_grid h0 (input_ref ex)) (take (length seen') rest)"
      and fresh: "\<forall>c\<in>set (map fst seen'). length h0 \<le> c"
      and all: "isl res \<or> length seen' = length rest"
      by blast
    from step Inr run frame' vals fresh all inp len show ?thesis
      by (intro exI [of _ res] exI [of _ "(length h, Some gi) # seen'"] exI [of _ s'] exI [of _ h'])
         auto
  qed
qed

text \<open>The log does not change what the solver and the verifier do.\<close>

lemma try_pair_ref_logging:
  "try_pair_ref (logging_ref program) (seen, s) h ex = Some ((r, (seen', s')), h')
   \<Longrightarrow> try_pair_ref program s h ex = Some ((r, s'), h')"
  by (auto simp: try_pair_ref_def run_and_sanitize_ref_def logging_ref_def
           split: option.splits prod.splits sum.splits)

lemma verify_loop_ref_logging:
  "verify_loop_ref (logging_ref program) pairs acc (seen, s) h = Some ((res, (seen', s')), h')
   \<Longrightarrow> verify_loop_ref program pairs acc s h = Some ((res, s'), h')"
proof (induction pairs arbitrary: acc seen s h)
  case Nil
  then show ?case by simp
next
  case (Cons ex rest)
  from Cons.prems obtain r seen1 s1 h1 where
    step: "try_pair_ref (logging_ref program) (seen, s) h ex = Some ((r, (seen1, s1)), h1)"
    by (auto split: option.splits prod.splits sum.splits)
  note plain = try_pair_ref_logging [OF step]
  show ?case
  proof (cases r)
    case (Inl e)
    with Cons.prems step plain show ?thesis by simp
  next
    case (Inr v)
    with Cons.prems step
    have "verify_loop_ref (logging_ref program) rest
            (record_verdict (input_ref ex) (output_ref ex) v acc) (seen1, s1) h1
          = Some ((res, (seen', s')), h')"
      by simp
    from Cons.IH [OF this] Inr plain show ?thesis by simp
  qed
qed

lemma prefix_take: "prefix h h' \<Longrightarrow> take (length h) h' = h"
  by (auto simp: prefix_def)

text \<open>The solver that writes into its argument reaches what it changes from there.\<close>

lemma solver_in_place_confined: "confined n solver_in_place"
  unfolding confined_def
proof (intro allI impI)
  fix s h a r s' h'
  assume run: "solver_in_place s h a = ((r, s'), h')"
  show "length h \<le> length h' \<and> (\<forall>b. b < n \<and> b < length h \<and> b \<notin> reach h a \<longrightarrow> h' ! b = h ! b)"
  proof (cases "\<exists>r0 rs x xs. lookup h a = Some (Grid (r0 # rs)) \<and> lookup h r0 = Some (Row (x # xs))")
    case True
    then obtain r0 rs x xs where a: "lookup h a = Some (Grid (r0 # rs))"
      and r0: "lookup h r0 = Some (Row (x # xs))"
      by blast
    from run a r0 have h': "h' = h[r0 := Row (9 # xs)]"
      by (auto simp: solver_in_place_def Let_def split: option.splits)
    have "r0 \<in> reach h a"
      by (rule reach.item [OF reach.self a]) simp
    then have "h' ! b = h ! b" if "b \<notin> reach h a" for b
    proof -
      from that \<open>r0 \<in> reach h a\<close> have "r0 \<noteq> b" by auto
      then show ?thesis
        unfolding h' by (rule nth_list_update_neq)
    qed
    with h' show ?thesis
      by simp
  next
    case False
    with run have "h' = h"
      by (auto simp: solver_in_place_def split: option.splits obj.splits list.splits)
    then show ?thesis by simp
  qed
qed

section \<open>The repository after a verification\<close>

text \<open>
  Claim C6. The verifier deep-copies the input grid of every pair before it calls the
  solver. Let the pairs of the repository be grids in the store, and let the solver have
  no other way to the objects that were there before than its argument. Then the
  verification returns; every object that was there before holds what it held, so the
  input and the output grid of every pair are unchanged, whatever the solver wrote into
  its arguments; and every call got a new object (its address is past the old store)
  that stood for the input grid of its pair as the repository has it, also when one pair
  is verified several times.
\<close>

theorem repository_unchanged_by_verification:
  assumes "confined (length h) program"
    and "\<forall>ex\<in>set pairs. is_grid h (input_ref ex) \<and> is_grid h (output_ref ex)"
  shows "\<exists>res seen s' h'.
           verify_split_ref program pairs s h = Some ((res, s'), h')
         \<and> verify_split_ref (logging_ref program) pairs ([], s) h
             = Some ((res, (seen, s')), h')
         \<and> take (length h) h' = h
         \<and> (\<forall>ex\<in>set pairs.
               read_grid h' (input_ref ex) = read_grid h (input_ref ex)
             \<and> read_grid h' (output_ref ex) = read_grid h (output_ref ex))
         \<and> map snd seen = map (\<lambda>ex. read_grid h (input_ref ex)) (take (length seen) pairs)
         \<and> (\<forall>c\<in>set (map fst seen). length h \<le> c)
         \<and> (isl res \<or> length seen = length pairs)"
proof -
  from verify_loop_ref_frame [OF assms(1) _ assms(2), of h "(0, 0, None, [])" "[]" s]
  obtain res seen s' h' where
    run: "verify_loop_ref (logging_ref program) pairs (0, 0, None, []) ([], s) h
            = Some ((res, (seen, s')), h')"
    and frame: "prefix h h'"
    and vals: "map snd seen = map (\<lambda>ex. read_grid h (input_ref ex)) (take (length seen) pairs)"
    and fresh: "\<forall>c\<in>set (map fst seen). length h \<le> c"
    and all: "isl res \<or> length seen = length pairs"
    by auto
  have same: "read_grid h' a = read_grid h a" if "is_grid h a" for a
    using that read_grid_prefix [OF frame] by (auto simp: is_grid_def)
  from assms(2) same
  have pairs: "\<forall>ex\<in>set pairs.
               read_grid h' (input_ref ex) = read_grid h (input_ref ex)
             \<and> read_grid h' (output_ref ex) = read_grid h (output_ref ex)"
    by blast
  from verify_loop_ref_logging [OF run] run prefix_take [OF frame] pairs vals fresh all
  show ?thesis
    unfolding verify_split_ref_def by blast
qed

text \<open>
  The solver that sets \<open>g[0][0] = 9\<close> in its argument, verified twice on the pair
  \<open>[[1, 2], [3, 4]]\<close>, \<open>[[9, 2], [3, 4]]\<close>: both calls get \<open>[[1, 2], [3, 4]]\<close> in a new
  object, both answers are correct, and the six objects of the repository are as before.
  Called on the grid of the repository itself, this solver changes its first row.
\<close>

theorem repository_unchanged_by_verification_witness:
  "verify_split_ref (logging_ref solver_in_place) [pair_at_2_5, pair_at_2_5] ([], ())
       heap_one_pair
     = Some ((Inr (2, 0, None, []),
              ([(6, Some [[1, 2], [3, 4]]), (9, Some [[1, 2], [3, 4]])], ())),
             heap_one_pair
               @ [Grid [7, 8], Row [9, 2], Row [3, 4], Grid [10, 11], Row [9, 2], Row [3, 4]])
   \<and> verify_split_ref solver_in_place [pair_at_2_5, pair_at_2_5] () heap_one_pair
     = Some ((Inr (2, 0, None, []), ()),
             heap_one_pair
               @ [Grid [7, 8], Row [9, 2], Row [3, 4], Grid [10, 11], Row [9, 2], Row [3, 4]])
   \<and> read_grid heap_one_pair 2 = Some [[1, 2], [3, 4]]
   \<and> read_grid heap_one_pair 5 = Some [[9, 2], [3, 4]]
   \<and> snd (solver_in_place () heap_one_pair 2) = heap_one_pair[0 := Row [9, 2]]"
proof -
  have conf: "confined (length heap_one_pair) solver_in_place"
    by (rule solver_in_place_confined)
  have grids: "\<forall>ex\<in>set [pair_at_2_5, pair_at_2_5].
                 is_grid heap_one_pair (input_ref ex) \<and> is_grid heap_one_pair (output_ref ex)"
    by code_simp
  have run: "verify_split_ref (logging_ref solver_in_place) [pair_at_2_5, pair_at_2_5] ([], ())
       heap_one_pair
     = Some ((Inr (2, 0, None, []),
              ([(6, Some [[1, 2], [3, 4]]), (9, Some [[1, 2], [3, 4]])], ())),
             heap_one_pair
               @ [Grid [7, 8], Row [9, 2], Row [3, 4], Grid [10, 11], Row [9, 2], Row [3, 4]])"
    by code_simp
  have vals: "read_grid heap_one_pair 2 = Some [[1, 2], [3, 4]]"
    "read_grid heap_one_pair 5 = Some [[9, 2], [3, 4]]"
    by code_simp+
  have direct: "snd (solver_in_place () heap_one_pair 2) = heap_one_pair[0 := Row [9, 2]]"
    by code_simp
  from repository_unchanged_by_verification [OF conf grids, of "()"] run vals direct
  show ?thesis
    by auto
qed

section \<open>The verifier on grids is the verifier in the store\<close>

lemma counts_record_verdict:
  "counts acc = counts acc' \<Longrightarrow>
   counts (record_verdict inp outp v acc) = counts (record_verdict inp' outp' v acc')"
  by (cases acc; cases acc'; cases v) simp_all

lemma example_at_prefix:
  "prefix h h' \<Longrightarrow> example_at h ex = Some e \<Longrightarrow> example_at h' ex = Some e"
  by (auto simp: example_at_def read_grid_prefix split: option.splits)

lemma try_pair_ref_on_store:
  assumes "example_at h ex = Some e"
  shows "\<exists>h'. try_pair_ref (on_store program) s h ex = Some (try_pair program s e, h')
              \<and> prefix h h'"
proof -
  from assms obtain gi go where inp: "read_grid h (input_ref ex) = Some gi"
    and outp: "read_grid h (output_ref ex) = Some go"
    and e: "e = \<lparr>ex_input = gi, ex_output = go\<rparr>"
    by (auto simp: example_at_def split: option.splits)
  from deepcopy_ref_grid [OF inp]
  obtain h1 where copy: "deepcopy_ref h (input_ref ex) = Some (length h, h1)"
    and ext: "prefix h h1"
    and val: "read_grid h1 (length h) = Some gi"
    by blast
  from read_grid_prefix [OF ext outp] have want: "read_grid h1 (output_ref ex) = Some go" .
  obtain r s' where call: "program s gi = (r, s')"
    by (cases "program s gi") auto
  from copy val want call e
  have "try_pair_ref (on_store program) s h ex = Some (try_pair program s e, h1)"
    by (cases r)
       (simp_all add: try_pair_ref_def run_and_sanitize_ref_def on_store_def try_pair_def
          run_and_sanitize_def deepcopy_id split: sum.splits)
  with ext show ?thesis
    by blast
qed

text \<open>
  For a solver that only reads its argument, the verification in the store gives the
  counts, the trace and the solver's state that the verification of the same grids as
  values gives.
\<close>

lemma verify_loop_ref_on_store:
  assumes "map (example_at h0) pairs = map Some exs" and "prefix h0 h"
    and "counts acc = counts acc'"
  shows "\<exists>res h'. verify_loop_ref (on_store program) pairs acc s h
                     = Some ((res, snd (verify_loop program exs acc' s)), h')
                 \<and> map_sum id counts res = map_sum id counts (fst (verify_loop program exs acc' s))
                 \<and> prefix h0 h'"
  using assms
proof (induction pairs arbitrary: exs acc acc' s h)
  case Nil
  then show ?case by simp
next
  case (Cons ex rest)
  from Cons.prems(1) obtain e exs' where exs: "exs = e # exs'"
    and e: "example_at h0 ex = Some e"
    and rest: "map (example_at h0) rest = map Some exs'"
    by (cases exs) auto
  from try_pair_ref_on_store [OF example_at_prefix [OF Cons.prems(2) e], of program s]
  obtain h1 where step: "try_pair_ref (on_store program) s h ex = Some (try_pair program s e, h1)"
    and ext: "prefix h h1"
    by blast
  from Cons.prems(2) ext have frame: "prefix h0 h1"
    by (rule prefix_order.trans)
  obtain r s1 where tp: "try_pair program s e = (r, s1)"
    by (cases "try_pair program s e") auto
  show ?case
  proof (cases r)
    case (Inl x)
    with step tp exs frame show ?thesis by simp
  next
    case (Inr v)
    have c: "counts (record_verdict (input_ref ex) (output_ref ex) v acc)
             = counts (record_verdict (ex_input e) (ex_output e) v acc')"
      by (rule counts_record_verdict [OF Cons.prems(3)])
    from Cons.IH [OF rest frame c, of s1] step tp Inr exs show ?thesis
      by simp
  qed
qed

end
